theory Spec2Isabelle
  imports Complex_Main "HOL-Library.AList"
begin

section \<open>Results and loops\<close>

text \<open>
  The notebook code raises through numpy: an index outside an array is an IndexError,
  the maximum of an empty array is a ValueError. A computation that can raise returns
  \<open>error + 'a\<close>, with \<open>Inl\<close> for the exception.
\<close>

datatype error = IndexError | ValueError

definition and_then :: "error + 'a \<Rightarrow> ('a \<Rightarrow> error + 'b) \<Rightarrow> error + 'b" where
  "and_then r f = (case r of Inl e \<Rightarrow> Inl e | Inr x \<Rightarrow> f x)"

text \<open>A \<^verbatim>\<open>for x in xs:\<close> loop whose body updates the state or raises.\<close>

fun for_each :: "('a \<Rightarrow> 's \<Rightarrow> error + 's) \<Rightarrow> 'a list \<Rightarrow> 's \<Rightarrow> error + 's" where
  "for_each body [] st = Inr st"
| "for_each body (x # xs) st =
     (case body x st of Inl e \<Rightarrow> Inl e | Inr st' \<Rightarrow> for_each body xs st')"

section \<open>The numpy operations the notebook uses\<close>

text \<open>\<^verbatim>\<open>np.unique(a)\<close>: the distinct values, ascending.\<close>

definition np_unique :: "int list \<Rightarrow> int list" where
  "np_unique a = sort (remdups a)"

text \<open>\<^verbatim>\<open>np.argwhere(a == v).flatten()\<close>: the positions holding \<open>v\<close>, ascending.\<close>

definition np_argwhere :: "int list \<Rightarrow> int \<Rightarrow> nat list" where
  "np_argwhere a v = filter (\<lambda>i. a ! i = v) [0..<length a]"

text \<open>\<^verbatim>\<open>np.nonzero(a)\<close>: the positions holding a nonzero value.\<close>

definition np_nonzero :: "int list \<Rightarrow> nat list" where
  "np_nonzero a = filter (\<lambda>i. a ! i \<noteq> 0) [0..<length a]"

text \<open>\<^verbatim>\<open>a[idxs]\<close> read with an index array: raises when an index is out of bounds.\<close>

definition np_take :: "'a list \<Rightarrow> nat list \<Rightarrow> error + 'a list" where
  "np_take a idxs =
     (if \<forall>i \<in> set idxs. i < length a then Inr (map (\<lambda>i. a ! i) idxs) else Inl IndexError)"

text \<open>\<^verbatim>\<open>a[idxs] = v\<close> with a scalar \<open>v\<close>.\<close>

definition np_put :: "'a list \<Rightarrow> nat list \<Rightarrow> 'a \<Rightarrow> error + 'a list" where
  "np_put a idxs v =
     (if \<forall>i \<in> set idxs. i < length a then Inr (fold (\<lambda>i b. b[i := v]) idxs a)
      else Inl IndexError)"

text \<open>\<^verbatim>\<open>a[idxs] = vs\<close> with one value for each index.\<close>

definition np_put_each :: "'a list \<Rightarrow> nat list \<Rightarrow> 'a list \<Rightarrow> error + 'a list" where
  "np_put_each a idxs vs =
     (if \<forall>i \<in> set idxs. i < length a
      then Inr (fold (\<lambda>(i, v) b. b[i := v]) (zip idxs vs) a)
      else Inl IndexError)"

text \<open>
  \<^verbatim>\<open>np.intersect1d\<close> and \<^verbatim>\<open>np.union1d\<close> return the distinct common (respectively all)
  values in sorted order. The notebook only takes their length, so the order is left out.
\<close>

definition np_intersect1d :: "'a list \<Rightarrow> 'a list \<Rightarrow> 'a list" where
  "np_intersect1d a b = remdups (filter (\<lambda>x. x \<in> set b) a)"

definition np_union1d :: "'a list \<Rightarrow> 'a list \<Rightarrow> 'a list" where
  "np_union1d a b = remdups (a @ b)"

text \<open>\<^verbatim>\<open>np.max(a)\<close>: raises on an empty array.\<close>

definition np_max :: "'a::linorder list \<Rightarrow> error + 'a" where
  "np_max a = (case a of [] \<Rightarrow> Inl ValueError | x # xs \<Rightarrow> Inr (fold max xs x))"

text \<open>
  \<^verbatim>\<open>np.linspace(start, stop, num)\<close>: \<open>num\<close> evenly spaced values, both ends included.
  Thresholds and scores are floats in the notebook; here they are exact rationals.
\<close>

definition np_linspace :: "rat \<Rightarrow> rat \<Rightarrow> nat \<Rightarrow> rat list" where
  "np_linspace start stop num =
     (let step = (stop - start) / of_nat (num - 1)
      in map (\<lambda>i. start + of_nat i * step) [0..<num])"

section \<open>The linkage\<close>

text \<open>
  \<^verbatim>\<open>link\<close> is the scipy linkage matrix, a global of the notebook. The code reads it in two
  ways only: \<^verbatim>\<open>fcluster(link, t, criterion="distance")\<close>, the flat cluster label of every
  item when the hierarchy is cut at distance \<open>t\<close>, and \<^verbatim>\<open>maxdists(link)\<close>. Both are
  scipy's, so a linkage is taken as these two observations.
\<close>

record linkage =
  fcluster :: "rat \<Rightarrow> int list"
  maxdists :: "rat list"

section \<open>get\_first\_level\_clusters\<close>

text \<open>
  \<^verbatim>\<open>link\<close> and \<^verbatim>\<open>common_genes\<close> are globals of the notebook; here they are arguments.
  A score is the quotient of two set sizes. For set sizes below \<open>2 ^ 26\<close> rounding to a
  float keeps such quotients in their order and keeps different ones apart, and 0.5 is a
  float, so the comparisons of the notebook come out as the exact ones here. The
  thresholds are the exact values \<open>k * max_thresh / 999\<close>, of which numpy has the
  roundings; nothing below depends on how the cuts vary with the threshold. The label
  arrays of the notebook are float arrays of whole numbers, integer lists here. The two
  \<^verbatim>\<open>print\<close> calls are left out.
\<close>

text \<open>
  The variables the three nested loops update: \<^verbatim>\<open>highest_thresh\<close>, \<^verbatim>\<open>best_jaccard\<close>
  (set to 0 again for every complex that is not skipped) and the dict \<^verbatim>\<open>assignments\<close>,
  kept in insertion order as Python does.
\<close>

record scan =
  highest_thresh :: rat
  best_jaccard :: rat
  assignments :: "(string \<times> nat list) list"

text \<open>Numerator, denominator and the guarded division.\<close>

definition jaccard_score :: "string list \<Rightarrow> string list \<Rightarrow> rat" where
  "jaccard_score cluster_genes comp_genes =
     (let numer = length (np_intersect1d cluster_genes comp_genes);
          denom = length (np_union1d cluster_genes comp_genes)
      in if denom = 0 then 0 else of_nat numer / of_nat denom)"

text \<open>The \<^verbatim>\<open>if jaccard > best_jaccard and jaccard >= 0.5:\<close> block.\<close>

definition record_match :: "string \<Rightarrow> rat \<Rightarrow> nat list \<Rightarrow> rat \<Rightarrow> scan \<Rightarrow> scan" where
  "record_match complex thresh cluster jaccard st =
     (if jaccard > best_jaccard st \<and> jaccard \<ge> 1 / 2
      then st\<lparr>highest_thresh :=
                 (if thresh > highest_thresh st then thresh else highest_thresh st),
              best_jaccard := jaccard,
              assignments := AList.update complex cluster (assignments st)\<rparr>
      else st)"

text \<open>The body of \<^verbatim>\<open>for label in labels:\<close>.\<close>

definition label_body ::
  "string list \<Rightarrow> string \<Rightarrow> string list \<Rightarrow> rat \<Rightarrow> int list \<Rightarrow> int \<Rightarrow> scan \<Rightarrow> error + scan"
where
  "label_body common_genes complex comp_genes thresh clusters label st =
     (let cluster = np_argwhere clusters label
      in if length cluster < 2 then Inr st
         else and_then (np_take common_genes cluster) (\<lambda>cluster_genes.
                Inr (record_match complex thresh cluster
                       (jaccard_score cluster_genes comp_genes) st)))"

text \<open>The body of \<^verbatim>\<open>for thresh in np.linspace(0, max_thresh, num=1000):\<close>.\<close>

definition thresh_body ::
  "linkage \<Rightarrow> string list \<Rightarrow> string \<Rightarrow> string list \<Rightarrow> rat \<Rightarrow> scan \<Rightarrow> error + scan"
where
  "thresh_body link common_genes complex comp_genes thresh st =
     (let clusters = fcluster link thresh;
          labels = np_unique clusters
      in for_each (label_body common_genes complex comp_genes thresh clusters) labels st)"

text \<open>The body of \<^verbatim>\<open>for complex, comp_genes in complexes.items():\<close>.\<close>

definition complex_body ::
  "linkage \<Rightarrow> string list \<Rightarrow> rat \<Rightarrow> string \<times> string list \<Rightarrow> scan \<Rightarrow> error + scan"
where
  "complex_body link common_genes max_thresh item st =
     (case item of (complex, comp_genes) \<Rightarrow>
        if length (np_intersect1d comp_genes common_genes) < 2 then Inr st
        else for_each (thresh_body link common_genes complex comp_genes)
               (np_linspace 0 max_thresh 1000) (st\<lparr>best_jaccard := 0\<rparr>))"

text \<open>The function up to the end of the loop over the complexes.\<close>

definition scan_complexes ::
  "linkage \<Rightarrow> string list \<Rightarrow> (string \<times> string list) list \<Rightarrow> error + scan"
where
  "scan_complexes link common_genes complexes =
     and_then (np_max (maxdists link)) (\<lambda>max_thresh.
       for_each (complex_body link common_genes max_thresh) complexes
         \<lparr>highest_thresh = 0, best_jaccard = 0, assignments = []\<rparr>)"

text \<open>
  \<^verbatim>\<open>gene_assignments\<close>: zeros, then label \<open>i + 1\<close> written at the indices of the
  \<open>i\<close>-th entry of \<^verbatim>\<open>assignments\<close>.
\<close>

definition gene_assignments :: "nat \<Rightarrow> (string \<times> nat list) list \<Rightarrow> error + int list" where
  "gene_assignments n asg =
     for_each (\<lambda>(i, (complex, idxs)) ga. np_put ga idxs (int i + 1))
       (enumerate 0 asg) (replicate n 0)"

definition get_first_level_clusters ::
  "linkage \<Rightarrow> string list \<Rightarrow> (string \<times> string list) list \<Rightarrow> error + int list"
where
  "get_first_level_clusters link common_genes complexes =
     and_then (scan_complexes link common_genes complexes) (\<lambda>st.
     and_then (gene_assignments (length common_genes) (assignments st)) (\<lambda>ga.
     and_then (np_max ga) (\<lambda>m.
       let final_clusters = map (\<lambda>l. m + 1 + l) (fcluster link (highest_thresh st + 1 / 10));
           nz = np_nonzero ga
       in and_then (np_take ga nz) (\<lambda>vals. np_put_each final_clusters nz vals))))"

section \<open>create\_data\_structure\<close>

text \<open>
  The nested dict handed to D3.js: \<^verbatim>\<open>{"name": n, "value": v}\<close> is a leaf,
  \<^verbatim>\<open>{"name": n, "children": [...]}\<close> an inner node.
\<close>

datatype tree = Leaf string int | Node string "tree list"

text \<open>
  \<^verbatim>\<open>create_data_structure_recursive\<close> returns a list of leaf dicts past the last level
  and one dict otherwise; the caller tells them apart with \<^verbatim>\<open>isinstance(child, list)\<close>.
\<close>

datatype built = Leaves "tree list" | Dict tree

text \<open>
  \<^verbatim>\<open>mapped_genes\<close> is a global of the notebook. The loop over the labels makes one
  recursive call per label and extends \<^verbatim>\<open>children\<close> with what it returns; here the calls
  are listed first and the loop runs over their results, in the same order, stopping at the
  first one that raised.
\<close>

function create_data_structure_recursive ::
  "string list \<Rightarrow> int list list \<Rightarrow> nat list \<Rightarrow> nat \<Rightarrow> error + built"
where
  "create_data_structure_recursive mapped_genes clusters subset' idx =
     (if idx + 1 > length clusters
      then (case np_take mapped_genes subset' of
              Inl e \<Rightarrow> Inl e
            | Inr names \<Rightarrow> Inr (Leaves (map (\<lambda>name. Leaf name 1) names)))
      else let cluster = clusters ! idx
           in (case np_take cluster subset' of
                 Inl e \<Rightarrow> Inl e
               | Inr cluster' \<Rightarrow>
                   let labels = np_unique cluster';
                       calls = map (\<lambda>label.
                                 let new_subset = np_argwhere (clusters ! idx) label
                                 in create_data_structure_recursive mapped_genes clusters
                                      new_subset (idx + 1)) labels
                   in and_then
                        (for_each
                           (\<lambda>call children. and_then call (\<lambda>child.
                              Inr (case child of Leaves l \<Rightarrow> children @ l
                                               | Dict d \<Rightarrow> children @ [d])))
                           calls [])
                        (\<lambda>children. Inr (Dict (Node [] children)))))"
  by pat_completeness auto
termination
  by (relation "measure (\<lambda>(mapped_genes, clusters, subset', idx). length clusters - idx)") auto

text \<open>
  \<^verbatim>\<open>clusters[::-1]\<close>, then the recursion from all indices of the first (coarsest) level.
  \<^verbatim>\<open>clusters[0]\<close> raises on an empty list of levels.
\<close>

definition create_data_structure :: "string list \<Rightarrow> int list list \<Rightarrow> error + built" where
  "create_data_structure mapped_genes clusters =
     (case rev clusters of
        [] \<Rightarrow> Inl IndexError
      | c0 # rest \<Rightarrow>
          create_data_structure_recursive mapped_genes (c0 # rest) [0..<length c0] 0)"

text \<open>The names on the leaves of a tree, left to right.\<close>

fun leaves :: "tree \<Rightarrow> string list" where
  "leaves (Leaf name v) = [name]"
| "leaves (Node name children) = concat (map leaves children)"

section \<open>Notions the properties are stated with\<close>

text \<open>A cut of the linkage, at whatever threshold, gives one label for each item.\<close>

definition fits :: "linkage \<Rightarrow> string list \<Rightarrow> bool" where
  "fits link common_genes \<longleftrightarrow> (\<forall>t. length (fcluster link t) = length common_genes)"

text \<open>scipy numbers flat clusters from 1.\<close>

definition labelled_from_one :: "linkage \<Rightarrow> bool" where
  "labelled_from_one link \<longleftrightarrow> (\<forall>t. \<forall>l \<in> set (fcluster link t). 1 \<le> l)"

text \<open>The Jaccard score of the cluster with the given item indices against a complex.\<close>

definition cluster_score :: "string list \<Rightarrow> string list \<Rightarrow> nat list \<Rightarrow> rat" where
  "cluster_score common_genes comp_genes cluster =
     jaccard_score (map (\<lambda>i. common_genes ! i) cluster) comp_genes"

text \<open>
  Every (threshold, cluster) pair the two inner loops visit, in the order they visit it,
  and those among them that pass the \<^verbatim>\<open>len(cluster) < 2\<close> test.
\<close>

definition visits :: "linkage \<Rightarrow> rat list \<Rightarrow> (rat \<times> nat list) list" where
  "visits link ts =
     concat (map (\<lambda>t. map (\<lambda>l. (t, np_argwhere (fcluster link t) l))
                          (np_unique (fcluster link t))) ts)"

definition candidates :: "linkage \<Rightarrow> rat list \<Rightarrow> (rat \<times> nat list) list" where
  "candidates link ts = filter (\<lambda>(t, cluster). 2 \<le> length cluster) (visits link ts)"

text \<open>What one visit of a cluster with at least two members does to the state.\<close>

definition match_step ::
  "string list \<Rightarrow> string \<Rightarrow> string list \<Rightarrow> rat \<times> nat list \<Rightarrow> scan \<Rightarrow> scan" where
  "match_step common_genes complex comp_genes v st =
     record_match complex (fst v) (snd v) (cluster_score common_genes comp_genes (snd v)) st"

text \<open>A score counts only from 0.5 on.\<close>

definition gated :: "rat \<Rightarrow> rat" where
  "gated j = (if j \<ge> 1 / 2 then j else 0)"

definition match_key :: "string list \<Rightarrow> string list \<Rightarrow> rat \<times> nat list \<Rightarrow> rat" where
  "match_key common_genes comp_genes v = gated (cluster_score common_genes comp_genes (snd v))"

text \<open>
  The last element of a list that strictly improves on everything before it, starting from
  the bound \<open>b\<close>: the first element with the greatest key, when that key exceeds \<open>b\<close>.
\<close>

fun winner :: "('a \<Rightarrow> rat) \<Rightarrow> rat \<Rightarrow> 'a list \<Rightarrow> 'a option" where
  "winner k b [] = None"
| "winner k b (x # xs) =
     (if k x > b then (case winner k (k x) xs of None \<Rightarrow> Some x | Some y \<Rightarrow> Some y)
      else winner k b xs)"

text \<open>The (threshold, cluster) pair a complex ends up with, if any.\<close>

definition best_match ::
  "linkage \<Rightarrow> string list \<Rightarrow> rat \<Rightarrow> string list \<Rightarrow> (rat \<times> nat list) option" where
  "best_match link common_genes max_thresh comp_genes =
     (if length (np_intersect1d comp_genes common_genes) < 2 then None
      else winner (match_key common_genes comp_genes) 0
             (candidates link (np_linspace 0 max_thresh 1000)))"

text \<open>
  The condition of the specification: at least two genes of the complex are items, and at
  one of the 1000 thresholds a cluster with at least two members scores 0.5 or more.
\<close>

definition capturable :: "linkage \<Rightarrow> string list \<Rightarrow> rat \<Rightarrow> string list \<Rightarrow> bool" where
  "capturable link common_genes max_thresh comp_genes \<longleftrightarrow>
     2 \<le> card (set comp_genes \<inter> set common_genes) \<and>
     (\<exists>t \<in> set (np_linspace 0 max_thresh 1000). \<exists>l \<in> set (fcluster link t).
        2 \<le> length (np_argwhere (fcluster link t) l) \<and>
        1 / 2 \<le> cluster_score common_genes comp_genes (np_argwhere (fcluster link t) l))"

definition captured ::
  "linkage \<Rightarrow> string list \<Rightarrow> rat \<Rightarrow> (string \<times> string list) list \<Rightarrow> (string \<times> nat list) list"
where
  "captured link common_genes max_thresh complexes =
     List.map_filter
       (\<lambda>(c, g). map_option (\<lambda>w. (c, snd w)) (best_match link common_genes max_thresh g))
       complexes"

text \<open>
  The label the \<^verbatim>\<open>enumerate(assignments.items())\<close> loop writes for each captured complex.
\<close>

definition captured_labels :: "(string \<times> nat list) list \<Rightarrow> (string \<times> int) list" where
  "captured_labels asg = map (\<lambda>(i, (complex, idxs)). (complex, int i + 1)) (enumerate 0 asg)"

text \<open>
  The value that loop leaves at index \<open>i\<close>, which held \<open>d\<close> before, when the entries
  \<open>asg\<close> are numbered from \<open>k\<close>.
\<close>

fun label_at :: "nat \<Rightarrow> (string \<times> nat list) list \<Rightarrow> nat \<Rightarrow> int \<Rightarrow> int" where
  "label_at k [] i d = d"
| "label_at k (e # rest) i d =
     label_at (Suc k) rest i (if i \<in> set (snd e) then int k + 1 else d)"

text \<open>As long as nothing is captured, \<^verbatim>\<open>highest_thresh\<close> is 0.\<close>

definition untouched :: "scan \<Rightarrow> bool" where
  "untouched s \<longleftrightarrow> (assignments s = [] \<longrightarrow> highest_thresh s = 0)"

section \<open>Two small linkages\<close>

text \<open>
  Three items at distance 1 from each other: below 1 every item is its own cluster, from
  1 on they are one cluster.
\<close>

definition equidistant :: linkage where
  "equidistant =
     \<lparr>fcluster = (\<lambda>t. if t < 1 then [1, 2, 3] else [1, 1, 1]), maxdists = [1, 1]\<rparr>"

definition three_genes :: "string list" where
  "three_genes = [''g0'', ''g1'', ''g2'']"

text \<open>
  Three items of which the first two merge at distance 1 and the third joins at distance 2.
\<close>

definition pair_first :: linkage where
  "pair_first =
     \<lparr>fcluster = (\<lambda>t. if t < 1 then [1, 2, 3] else if t < 2 then [1, 1, 2] else [1, 1, 1]),
      maxdists = [1, 2]\<rparr>"

section \<open>Loops and arrays\<close>

lemma for_each_append:
  "for_each body (xs @ ys) st = and_then (for_each body xs st) (for_each body ys)"
  by (induction xs arbitrary: st) (auto simp: and_then_def split: sum.splits)

lemma for_each_pure:
  "(\<And>x s. x \<in> set xs \<Longrightarrow> body x s = Inr (f x s)) \<Longrightarrow> for_each body xs st = Inr (fold f xs st)"
  by (induction xs arbitrary: st) auto

lemma for_each_invariant:
  "for_each body xs st = Inr st' \<Longrightarrow> I st \<Longrightarrow>
   (\<And>x s s'. x \<in> set xs \<Longrightarrow> I s \<Longrightarrow> body x s = Inr s' \<Longrightarrow> I s') \<Longrightarrow> I st'"
proof (induction xs arbitrary: st)
  case Nil
  then show ?case by simp
next
  case (Cons x xs)
  from Cons.prems(1) obtain s1 where s1: "body x st = Inr s1" "for_each body xs s1 = Inr st'"
    by (auto split: sum.splits)
  have "I s1" by (rule Cons.prems(3) [of x st]) (simp_all add: Cons.prems(2) s1(1))
  show ?case
  proof (rule Cons.IH [OF s1(2) \<open>I s1\<close>])
    fix y s s'
    assume "y \<in> set xs" "I s" "body y s = Inr s'"
    then show "I s'" using Cons.prems(3) [of y s s'] by simp
  qed
qed

lemma fold_filter_if:
  "fold (\<lambda>x s. if P x then f x s else s) xs st = fold f (filter P xs) st"
  by (induction xs arbitrary: st) auto

lemma np_argwhere_bound: "i \<in> set (np_argwhere a v) \<Longrightarrow> i < length a"
  by (simp add: np_argwhere_def)

lemma np_argwhere_iff: "i \<in> set (np_argwhere a v) \<longleftrightarrow> i < length a \<and> a ! i = v"
  by (auto simp: np_argwhere_def)

lemma np_nonzero_iff: "i \<in> set (np_nonzero a) \<longleftrightarrow> i < length a \<and> a ! i \<noteq> 0"
  by (auto simp: np_nonzero_def)

lemma length_np_intersect1d: "length (np_intersect1d a b) = card (set a \<inter> set b)"
proof -
  have "set (filter (\<lambda>x. x \<in> set b) a) = set a \<inter> set b" by auto
  then show ?thesis
    by (simp add: np_intersect1d_def length_remdups_card_conv)
qed

lemma fold_update_length: "length (fold (\<lambda>i b. b[i := v]) idxs a) = length a"
  by (induction idxs arbitrary: a) auto

lemma fold_update_nth:
  "i < length a \<Longrightarrow> fold (\<lambda>j b. b[j := v]) idxs a ! i = (if i \<in> set idxs then v else a ! i)"
  by (induction idxs arbitrary: a) (auto simp: fold_update_length nth_list_update)

lemma np_put_Inr:
  "\<forall>i \<in> set idxs. i < length a \<Longrightarrow>
   \<exists>b. np_put a idxs v = Inr b \<and> length b = length a \<and>
       (\<forall>i < length a. b ! i = (if i \<in> set idxs then v else a ! i))"
  by (simp add: np_put_def fold_update_length fold_update_nth)

lemma fold_zip_update_length:
  "length (fold (\<lambda>(i, v) b. b[i := v]) ps a) = length a"
  by (induction ps arbitrary: a) auto

lemma fold_zip_update_nth:
  "i < length a \<Longrightarrow>
   fold (\<lambda>(j, v) b. b[j := v]) (zip idxs (map f idxs)) a ! i = (if i \<in> set idxs then f i else a ! i)"
proof (induction idxs arbitrary: a)
  case Nil
  then show ?case by simp
next
  case (Cons j idxs)
  have "i < length (a[j := f j])" using Cons.prems by simp
  from Cons.IH [OF this] Cons.prems show ?case by (auto simp: nth_list_update)
qed

lemma np_max_Max: "a \<noteq> [] \<Longrightarrow> np_max a = Inr (Max (set a))"
proof (cases a)
  case Nil
  assume "a \<noteq> []"
  with Nil show ?thesis by simp
next
  case (Cons x xs)
  have "fold max xs x = Max (set (x # xs))" by (rule Max.set_eq_fold [symmetric])
  with Cons show ?thesis by (simp add: np_max_def)
qed

lemma np_max_zeros: "0 < n \<Longrightarrow> np_max (replicate n (0::int)) = Inr 0"
proof -
  assume "0 < n"
  then have ne: "replicate n (0::int) \<noteq> []" by simp
  have "set (replicate n (0::int)) = {0}" using \<open>0 < n\<close> by auto
  with np_max_Max [OF ne] show ?thesis by simp
qed

lemma update_fresh: "c \<notin> fst ` set al \<Longrightarrow> AList.update c v al = al @ [(c, v)]"
  by (induction al) auto

lemma upt3: "[0..<3] = [0, 1, 2]"
  by (simp add: upt_rec)

section \<open>The thresholds\<close>

lemma linspace_nth:
  "np_linspace 0 mt 1000 = map (\<lambda>i. of_nat i * (mt / 999)) [0..<1000]"
  by (simp add: np_linspace_def)

lemma linspace_bounds:
  assumes "0 \<le> mt" and "t \<in> set (np_linspace 0 mt 1000)"
  shows "0 \<le> t \<and> t \<le> mt"
proof -
  from assms(2) obtain i :: nat where i: "i < 1000" "t = of_nat i * (mt / 999)"
    by (auto simp: linspace_nth)
  have "of_nat i \<le> (999 :: rat)" using i(1) by simp
  then have "of_nat i * (mt / 999) \<le> 999 * (mt / 999)"
    using assms(1) by (intro mult_right_mono) simp_all
  moreover have "0 \<le> of_nat i * (mt / 999)" using assms(1) by simp
  ultimately show ?thesis using i(2) by simp
qed

lemma linspace_sorted:
  assumes "0 \<le> mt"
  shows "sorted (np_linspace 0 mt 1000)"
proof -
  have "sorted_wrt (\<lambda>i j. (of_nat i :: rat) * (mt / 999) \<le> of_nat j * (mt / 999)) [0..<1000]"
  proof (rule sorted_wrt_mono_rel [of _ "(\<le>)"])
    fix i j :: nat
    assume "i \<le> j"
    then have "(of_nat i :: rat) \<le> of_nat j" by simp
    then show "(of_nat i :: rat) * (mt / 999) \<le> of_nat j * (mt / 999)"
      using assms by (intro mult_right_mono) simp_all
  next
    show "sorted_wrt (\<le>) [0..<1000]" by simp
  qed
  then show ?thesis by (simp add: linspace_nth sorted_map)
qed

lemma linspace_last:
  "np_linspace 0 1 1000 = map (\<lambda>i. of_nat i * (1 / 999)) [0..<999] @ [1]"
proof -
  have "[0..<1000] = [0..<999] @ [999]"
    using upt_Suc_append [of 0 999] by simp
  then show ?thesis by (simp add: linspace_nth)
qed

lemma linspace_two_split:
  "np_linspace 0 2 1000 =
     map (\<lambda>i. of_nat i * (2 / 999)) [0..<500] @
     (1000 / 999) # map (\<lambda>i. of_nat i * (2 / 999)) [501..<1000]"
proof -
  have "[0..<500 + 500] = [0..<500] @ [500..<500 + 500]"
    by (rule upt_add_eq_append) simp
  moreover have "[500..<1000] = 500 # [Suc 500..<1000]"
    by (rule upt_conv_Cons) simp
  ultimately have "[0..<1000] = [0..<500] @ 500 # [501..<1000]" by simp
  then show ?thesis by (simp add: linspace_nth)
qed

lemma last_threshold: "1 \<in> set (np_linspace 0 1 1000)"
  by (simp add: linspace_last)

section \<open>The two inner loops as one pass over the clusters they visit\<close>

lemma label_body_pure:
  assumes "length clusters \<le> length common_genes"
  shows "label_body common_genes complex comp_genes thresh clusters label st =
         Inr (if 2 \<le> length (np_argwhere clusters label)
              then match_step common_genes complex comp_genes (thresh, np_argwhere clusters label) st
              else st)"
proof -
  have "\<forall>i \<in> set (np_argwhere clusters label). i < length common_genes"
    using assms np_argwhere_bound by fastforce
  then show ?thesis
    by (simp add: label_body_def np_take_def and_then_def match_step_def cluster_score_def Let_def)
qed

lemma label_body_step:
  assumes "label_body cg c g t clusters l st = Inr st'"
  shows "st' = st \<or>
         (2 \<le> length (np_argwhere clusters l) \<and>
          st' = record_match c t (np_argwhere clusters l) (cluster_score cg g (np_argwhere clusters l)) st)"
  using assms
  by (auto simp: label_body_def Let_def and_then_def np_take_def cluster_score_def
      split: if_splits sum.splits)

lemma candidates_Cons:
  "candidates link (t # ts) = candidates link [t] @ candidates link ts"
  by (simp add: candidates_def visits_def)

lemma candidates_Nil: "candidates link [] = []"
  by (simp add: candidates_def visits_def)

lemma candidates_append:
  "candidates link (xs @ ys) = candidates link xs @ candidates link ys"
  by (simp add: candidates_def visits_def)

lemma candidates_none:
  "(\<And>t. t \<in> set ts \<Longrightarrow> candidates link [t] = []) \<Longrightarrow> candidates link ts = []"
proof (induction ts)
  case Nil
  then show ?case by (simp add: candidates_Nil)
next
  case (Cons t ts)
  then show ?case using candidates_Cons [of link t ts] by simp
qed

lemma thresh_body_pure:
  assumes "length (fcluster link thresh) \<le> length common_genes"
  shows "thresh_body link common_genes complex comp_genes thresh st =
         Inr (fold (match_step common_genes complex comp_genes) (candidates link [thresh]) st)"
proof -
  let ?cl = "fcluster link thresh"
  have "for_each (label_body common_genes complex comp_genes thresh ?cl) (np_unique ?cl) st =
        Inr (fold (\<lambda>l s. if 2 \<le> length (np_argwhere ?cl l)
              then match_step common_genes complex comp_genes (thresh, np_argwhere ?cl l) s
              else s) (np_unique ?cl) st)"
    by (rule for_each_pure) (rule label_body_pure [OF assms])
  also have "fold (\<lambda>l s. if 2 \<le> length (np_argwhere ?cl l)
              then match_step common_genes complex comp_genes (thresh, np_argwhere ?cl l) s
              else s) (np_unique ?cl) st =
        fold (match_step common_genes complex comp_genes) (candidates link [thresh]) st"
    by (simp add: candidates_def visits_def fold_filter_if [symmetric] fold_map comp_def)
  finally show ?thesis by (simp add: thresh_body_def Let_def)
qed

lemma thresholds_pure:
  assumes "\<And>t. t \<in> set ts \<Longrightarrow> length (fcluster link t) \<le> length common_genes"
  shows "for_each (thresh_body link common_genes complex comp_genes) ts st =
         Inr (fold (match_step common_genes complex comp_genes) (candidates link ts) st)"
  using assms
proof (induction ts arbitrary: st)
  case Nil
  then show ?case by (simp add: candidates_Nil)
next
  case (Cons t ts)
  have "thresh_body link common_genes complex comp_genes t st =
        Inr (fold (match_step common_genes complex comp_genes) (candidates link [t]) st)"
    by (rule thresh_body_pure) (simp add: Cons.prems)
  moreover have "for_each (thresh_body link common_genes complex comp_genes) ts s =
         Inr (fold (match_step common_genes complex comp_genes) (candidates link ts) s)" for s
    by (rule Cons.IH) (simp add: Cons.prems)
  ultimately show ?case
    by (simp add: candidates_Cons [of link t ts])
qed

lemma set_candidates:
  "set (candidates link ts) =
   {(t, np_argwhere (fcluster link t) l) | t l. t \<in> set ts \<and> l \<in> set (fcluster link t) \<and>
      2 \<le> length (np_argwhere (fcluster link t) l)}"
  by (auto simp: candidates_def visits_def np_unique_def)

lemma candidate_shape:
  assumes "w \<in> set (candidates link ts)"
  shows "fst w \<in> set ts \<and> 2 \<le> length (snd w) \<and>
         (\<exists>l \<in> set (fcluster link (fst w)). snd w = np_argwhere (fcluster link (fst w)) l)"
  using assms unfolding set_candidates by auto

lemma visits_sorted: "sorted ts \<Longrightarrow> sorted (map fst (visits link ts))"
proof (induction ts)
  case Nil
  then show ?case by (simp add: visits_def)
next
  case (Cons t ts)
  have v: "visits link (t # ts) =
        map (\<lambda>l. (t, np_argwhere (fcluster link t) l)) (np_unique (fcluster link t)) @ visits link ts"
    by (simp add: visits_def)
  have later: "\<forall>y \<in> set (map fst (visits link ts)). t \<le> y"
    using Cons.prems by (auto simp: visits_def)
  have "sorted (map fst (map (\<lambda>l. (t, np_argwhere (fcluster link t) l)) (np_unique (fcluster link t))))"
    by (simp add: comp_def sorted_wrt_map sorted_wrt_iff_nth_less)
  with Cons later show ?case
    by (auto simp: v sorted_append)
qed

lemma candidates_sorted: "sorted ts \<Longrightarrow> sorted (map fst (candidates link ts))"
  unfolding candidates_def by (intro sorted_filter visits_sorted)

lemma record_match_tie: "record_match c t cl (best_jaccard s) s = s"
  by (simp add: record_match_def)

section \<open>Scores\<close>

lemma ratio_le_one: "n \<le> d \<Longrightarrow> (of_nat n :: rat) / of_nat d \<le> 1"
proof (cases "d = 0")
  case True
  then show ?thesis by simp
next
  case False
  assume "n \<le> d"
  then have "(of_nat n :: rat) \<le> of_nat d" by simp
  moreover from False have "(0 :: rat) < of_nat d" by simp
  ultimately show ?thesis by (simp add: pos_divide_le_eq)
qed

lemma jaccard_score_le_one: "jaccard_score a b \<le> 1"
proof -
  have "card (set a \<inter> set b) \<le> card (set a \<union> set b)"
    by (intro card_mono) auto
  moreover have "length (np_intersect1d a b) = card (set a \<inter> set b)"
    by (rule length_np_intersect1d)
  moreover have "length (np_union1d a b) = card (set a \<union> set b)"
    by (simp add: np_union1d_def length_remdups_card_conv)
  ultimately have "length (np_intersect1d a b) \<le> length (np_union1d a b)" by simp
  then show ?thesis
    using ratio_le_one by (simp add: jaccard_score_def Let_def)
qed

lemma match_key_nonneg: "0 \<le> match_key cg g v"
  by (simp add: match_key_def gated_def)

lemma match_key_le_one: "match_key cg g v \<le> 1"
  by (simp add: match_key_def gated_def cluster_score_def jaccard_score_le_one)

lemma match_key_pos_iff: "0 < match_key cg g v \<longleftrightarrow> 1 / 2 \<le> cluster_score cg g (snd v)"
  by (simp add: match_key_def gated_def)

lemma match_key_le: "match_key cg g v \<le> match_key cg g w \<Longrightarrow> 1 / 2 \<le> cluster_score cg g (snd w) \<Longrightarrow>
   cluster_score cg g (snd v) \<le> cluster_score cg g (snd w)"
  by (auto simp: match_key_def gated_def split: if_splits)

lemma match_key_less: "match_key cg g v < match_key cg g w \<Longrightarrow>
   cluster_score cg g (snd v) < cluster_score cg g (snd w)"
  by (auto simp: match_key_def gated_def split: if_splits)

section \<open>The match a complex ends with\<close>

lemma winner_None: "winner k b xs = None \<longleftrightarrow> (\<forall>x \<in> set xs. k x \<le> b)"
  by (induction xs arbitrary: b) (auto split: option.splits)

lemma winner_Some:
  "winner k b xs = Some x \<Longrightarrow>
   \<exists>p s. xs = p @ x # s \<and> b < k x \<and> (\<forall>y \<in> set p. k y < k x) \<and> (\<forall>y \<in> set s. k y \<le> k x)"
proof (induction xs arbitrary: b)
  case Nil
  then show ?case by simp
next
  case (Cons a xs)
  show ?case
  proof (cases "k a > b")
    case True
    show ?thesis
    proof (cases "winner k (k a) xs")
      case None
      with True Cons.prems have "x = a" by simp
      moreover from None have "\<forall>y \<in> set xs. k y \<le> k a" by (simp add: winner_None)
      ultimately show ?thesis using True by (intro exI [of _ "[]"] exI [of _ xs]) simp
    next
      case (Some y)
      with True Cons.prems have "winner k (k a) xs = Some x" by simp
      from Cons.IH [OF this] obtain p s where
        ps: "xs = p @ x # s" "k a < k x" "\<forall>y \<in> set p. k y < k x" "\<forall>y \<in> set s. k y \<le> k x"
        by blast
      then show ?thesis using True
        by (intro exI [of _ "a # p"] exI [of _ s]) auto
    qed
  next
    case False
    with Cons.prems have "winner k b xs = Some x" by simp
    from Cons.IH [OF this] obtain p s where
      ps: "xs = p @ x # s" "b < k x" "\<forall>y \<in> set p. k y < k x" "\<forall>y \<in> set s. k y \<le> k x"
      by blast
    then show ?thesis using False
      by (intro exI [of _ "a # p"] exI [of _ s]) auto
  qed
qed

lemma match_step_cases:
  assumes "0 \<le> best_jaccard st"
  shows "match_step cg c g v st =
     (if match_key cg g v > best_jaccard st
      then st\<lparr>highest_thresh := max (fst v) (highest_thresh st),
              best_jaccard := match_key cg g v,
              assignments := AList.update c (snd v) (assignments st)\<rparr>
      else st)"
  using assms
  by (auto simp: match_step_def record_match_def match_key_def gated_def max_def)

lemma fold_match_step_None:
  "0 \<le> best_jaccard st \<Longrightarrow> winner (match_key cg g) (best_jaccard st) cs = None \<Longrightarrow>
   fold (match_step cg c g) cs st = st"
proof (induction cs arbitrary: st)
  case Nil
  then show ?case by simp
next
  case (Cons v cs)
  from Cons.prems(2) have le: "\<not> match_key cg g v > best_jaccard st"
    and rest: "winner (match_key cg g) (best_jaccard st) cs = None"
    by (auto split: if_splits option.splits)
  from le Cons.prems(1) have "match_step cg c g v st = st"
    by (simp add: match_step_cases)
  with Cons.IH [OF Cons.prems(1) rest] show ?case by simp
qed

lemma fold_match_step_settled:
  assumes "0 \<le> best_jaccard st" and "\<forall>v \<in> set cs. match_key cg g v \<le> best_jaccard st"
  shows "fold (match_step cg c g) cs st = st"
  using fold_match_step_None [OF assms(1)] assms(2) by (simp add: winner_None)

lemma fold_match_step_Some:
  "0 \<le> best_jaccard st \<Longrightarrow> winner (match_key cg g) (best_jaccard st) cs = Some w \<Longrightarrow>
   assignments (fold (match_step cg c g) cs st) = AList.update c (snd w) (assignments st) \<and>
   best_jaccard (fold (match_step cg c g) cs st) = match_key cg g w"
proof (induction cs arbitrary: st)
  case Nil
  then show ?case by simp
next
  case (Cons v cs)
  show ?case
  proof (cases "match_key cg g v > best_jaccard st")
    case True
    let ?st1 = "match_step cg c g v st"
    from True Cons.prems(1) have st1:
      "best_jaccard ?st1 = match_key cg g v"
      "assignments ?st1 = AList.update c (snd v) (assignments st)"
      by (simp_all add: match_step_cases)
    have nn: "0 \<le> best_jaccard ?st1" by (simp add: st1 match_key_nonneg)
    show ?thesis
    proof (cases "winner (match_key cg g) (match_key cg g v) cs")
      case None
      with True Cons.prems(2) have "w = v" by simp
      moreover from None have "fold (match_step cg c g) cs ?st1 = ?st1"
        using fold_match_step_None [OF nn] by (simp add: st1)
      ultimately show ?thesis by (simp add: st1)
    next
      case (Some y)
      with True Cons.prems(2) have "winner (match_key cg g) (best_jaccard ?st1) cs = Some w"
        by (simp add: st1)
      from Cons.IH [OF nn this] show ?thesis by (simp add: st1)
    qed
  next
    case False
    with Cons.prems(1) have same: "match_step cg c g v st = st"
      by (simp add: match_step_cases)
    from False Cons.prems(2) have "winner (match_key cg g) (best_jaccard st) cs = Some w"
      by simp
    from Cons.IH [OF Cons.prems(1) this] show ?thesis by (simp add: same)
  qed
qed

lemma complex_body_pure:
  assumes "fits link cg"
  shows "complex_body link cg mt (c, g) st =
         Inr (if length (np_intersect1d g cg) < 2 then st
              else fold (match_step cg c g) (candidates link (np_linspace 0 mt 1000))
                     (st\<lparr>best_jaccard := 0\<rparr>))"
proof -
  have "for_each (thresh_body link cg c g) (np_linspace 0 mt 1000) s =
        Inr (fold (match_step cg c g) (candidates link (np_linspace 0 mt 1000)) s)" for s
    by (rule thresholds_pure) (use assms in \<open>simp add: fits_def\<close>)
  then show ?thesis by (simp add: complex_body_def)
qed

lemma complex_body_skip:
  "card (set g \<inter> set cg) < 2 \<Longrightarrow> complex_body link cg mt (c, g) s = Inr s"
  by (simp add: complex_body_def length_np_intersect1d)

lemma complex_body_assignments:
  assumes "fits link cg" and "complex_body link cg mt (c, g) st = Inr st'"
  shows "assignments st' = (case best_match link cg mt g of None \<Rightarrow> assignments st
                            | Some w \<Rightarrow> AList.update c (snd w) (assignments st))"
proof (cases "length (np_intersect1d g cg) < 2")
  case True
  with assms show ?thesis by (simp add: complex_body_pure best_match_def)
next
  case False
  let ?s0 = "st\<lparr>best_jaccard := 0\<rparr>"
  let ?cs = "candidates link (np_linspace 0 mt 1000)"
  from False assms have st': "st' = fold (match_step cg c g) ?cs ?s0"
    by (simp add: complex_body_pure)
  have b0: "0 \<le> best_jaccard ?s0" by simp
  show ?thesis
  proof (cases "winner (match_key cg g) 0 ?cs")
    case None
    then have "fold (match_step cg c g) ?cs ?s0 = ?s0"
      using fold_match_step_None [OF b0] by simp
    with None False show ?thesis by (simp add: st' best_match_def)
  next
    case (Some w)
    then have "winner (match_key cg g) (best_jaccard ?s0) ?cs = Some w" by simp
    from fold_match_step_Some [OF b0 this, of c] Some False show ?thesis
      by (simp add: st' best_match_def)
  qed
qed

lemma best_match_Some_iff:
  "best_match link cg mt g \<noteq> None \<longleftrightarrow> capturable link cg mt g"
proof -
  let ?cs = "candidates link (np_linspace 0 mt 1000)"
  have "(\<exists>v \<in> set ?cs. 0 < match_key cg g v) \<longleftrightarrow>
        (\<exists>t \<in> set (np_linspace 0 mt 1000). \<exists>l \<in> set (fcluster link t).
        2 \<le> length (np_argwhere (fcluster link t) l) \<and>
        1 / 2 \<le> cluster_score cg g (np_argwhere (fcluster link t) l))"
    unfolding set_candidates match_key_pos_iff by fastforce
  moreover have "winner (match_key cg g) 0 ?cs \<noteq> None \<longleftrightarrow> (\<exists>v \<in> set ?cs. 0 < match_key cg g v)"
    by (auto simp: winner_None not_le)
  ultimately have "winner (match_key cg g) 0 ?cs \<noteq> None \<longleftrightarrow>
        (\<exists>t \<in> set (np_linspace 0 mt 1000). \<exists>l \<in> set (fcluster link t).
        2 \<le> length (np_argwhere (fcluster link t) l) \<and>
        1 / 2 \<le> cluster_score cg g (np_argwhere (fcluster link t) l))"
    by simp
  then show ?thesis
    unfolding best_match_def capturable_def length_np_intersect1d
    by (cases "card (set g \<inter> set cg) < 2") simp_all
qed

lemma capturable_two_genes:
  "capturable link cg mt g \<Longrightarrow> 2 \<le> card (set g \<inter> set cg)"
  by (simp add: capturable_def)

lemma best_match_first_best:
  assumes bm: "best_match link cg mt g = Some w" and mt: "0 \<le> mt"
  shows "w \<in> set (candidates link (np_linspace 0 mt 1000)) \<and>
         1 / 2 \<le> cluster_score cg g (snd w) \<and>
         (\<forall>v \<in> set (candidates link (np_linspace 0 mt 1000)).
            cluster_score cg g (snd v) \<le> cluster_score cg g (snd w) \<and>
            (fst v < fst w \<longrightarrow> cluster_score cg g (snd v) < cluster_score cg g (snd w)))"
proof -
  let ?cs = "candidates link (np_linspace 0 mt 1000)"
  let ?k = "match_key cg g"
  from bm have win: "winner ?k 0 ?cs = Some w"
    by (simp add: best_match_def split: if_splits)
  from winner_Some [OF win] obtain p s where
    ps: "?cs = p @ w # s" "0 < ?k w" "\<forall>y \<in> set p. ?k y < ?k w" "\<forall>y \<in> set s. ?k y \<le> ?k w"
    by blast
  from ps(2) have half: "1 / 2 \<le> cluster_score cg g (snd w)" by (simp add: match_key_pos_iff)
  have srt: "sorted (map fst (p @ w # s))"
    using candidates_sorted [OF linspace_sorted [OF mt], of link] ps(1) by simp
  have "cluster_score cg g (snd v) \<le> cluster_score cg g (snd w) \<and>
        (fst v < fst w \<longrightarrow> cluster_score cg g (snd v) < cluster_score cg g (snd w))"
    if v: "v \<in> set ?cs" for v
  proof -
    from v ps(1) consider "v \<in> set p" | "v = w" | "v \<in> set s" by auto
    then show ?thesis
    proof cases
      case 1
      with ps(3) have "?k v < ?k w" by simp
      then show ?thesis using match_key_less by fastforce
    next
      case 2
      then show ?thesis by simp
    next
      case 3
      with ps(4) have "?k v \<le> ?k w" by simp
      then have "cluster_score cg g (snd v) \<le> cluster_score cg g (snd w)"
        using half by (rule match_key_le)
      moreover from srt 3 have "fst w \<le> fst v"
        by (auto simp: sorted_append)
      ultimately show ?thesis by simp
    qed
  qed
  with ps(1) half show ?thesis by simp
qed

section \<open>The highest threshold\<close>

lemma match_step_highest:
  "highest_thresh st \<le> highest_thresh (match_step cg c g v st) \<and>
   highest_thresh (match_step cg c g v st) \<le> max (fst v) (highest_thresh st)"
  by (simp add: match_step_def record_match_def)

lemma fold_match_step_highest_mono:
  "highest_thresh st \<le> highest_thresh (fold (match_step cg c g) cs st)"
proof (induction cs arbitrary: st)
  case Nil
  then show ?case by simp
next
  case (Cons v cs)
  have "highest_thresh st \<le> highest_thresh (match_step cg c g v st)"
    using match_step_highest by blast
  also have "\<dots> \<le> highest_thresh (fold (match_step cg c g) cs (match_step cg c g v st))"
    by (rule Cons.IH)
  finally show ?case by simp
qed

lemma complex_body_highest:
  assumes "fits link cg" and "complex_body link cg mt (c, g) st = Inr st'"
  shows "highest_thresh st \<le> highest_thresh st'"
proof (cases "length (np_intersect1d g cg) < 2")
  case True
  with assms show ?thesis by (simp add: complex_body_pure)
next
  case False
  with assms have "st' = fold (match_step cg c g) (candidates link (np_linspace 0 mt 1000))
       (st\<lparr>best_jaccard := 0\<rparr>)"
    by (simp add: complex_body_pure)
  then show ?thesis
    using fold_match_step_highest_mono [of "st\<lparr>best_jaccard := 0\<rparr>" cg c g] by simp
qed

lemma record_match_highest:
  "highest_thresh st \<le> highest_thresh (record_match c t cl j st) \<and>
   highest_thresh (record_match c t cl j st) \<le> max t (highest_thresh st) \<and>
   (highest_thresh (record_match c t cl j st) \<noteq> highest_thresh st \<longrightarrow>
      best_jaccard st < j \<and> 1 / 2 \<le> j \<and> highest_thresh (record_match c t cl j st) = t)"
  by (simp add: record_match_def)

lemma label_body_highest:
  assumes "label_body cg c g t clusters l st = Inr st'"
  shows "highest_thresh st \<le> highest_thresh st' \<and> highest_thresh st' \<le> max t (highest_thresh st)"
  using label_body_step [OF assms] record_match_highest by auto

lemma label_body_event:
  assumes "label_body cg c g t clusters l st = Inr st'"
  shows "highest_thresh st' \<noteq> highest_thresh st \<longrightarrow>
           best_jaccard st < cluster_score cg g (np_argwhere clusters l) \<and>
           1 / 2 \<le> cluster_score cg g (np_argwhere clusters l) \<and> highest_thresh st' = t"
  using label_body_step [OF assms] record_match_highest by auto

lemma thresh_body_highest:
  assumes "thresh_body link cg c g t st = Inr st'"
  shows "highest_thresh st \<le> highest_thresh st' \<and> highest_thresh st' \<le> max t (highest_thresh st)"
proof -
  from assms have fe: "for_each (label_body cg c g t (fcluster link t)) (np_unique (fcluster link t)) st = Inr st'"
    by (simp add: thresh_body_def Let_def)
  have "highest_thresh st \<le> highest_thresh st'"
    by (rule for_each_invariant [OF fe, where I = "\<lambda>s. highest_thresh st \<le> highest_thresh s"])
       (use label_body_highest in \<open>force+\<close>)
  moreover have "highest_thresh st' \<le> max t (highest_thresh st)"
    by (rule for_each_invariant [OF fe, where I = "\<lambda>s. highest_thresh s \<le> max t (highest_thresh st)"])
       (use label_body_highest in \<open>force+\<close>)
  ultimately show ?thesis by simp
qed

lemma complex_body_highest_bounds:
  assumes "complex_body link cg mt x st = Inr st'" and "0 \<le> mt"
  shows "highest_thresh st \<le> highest_thresh st' \<and> highest_thresh st' \<le> max mt (highest_thresh st)"
proof -
  obtain c g where x: "x = (c, g)" by (cases x)
  show ?thesis
  proof (cases "length (np_intersect1d g cg) < 2")
    case True
    with assms x show ?thesis by (simp add: complex_body_def)
  next
    case False
    let ?s0 = "st\<lparr>best_jaccard := 0\<rparr>"
    from False assms x have fe:
      "for_each (thresh_body link cg c g) (np_linspace 0 mt 1000) ?s0 = Inr st'"
      by (simp add: complex_body_def)
    have "highest_thresh st \<le> highest_thresh st'"
      by (rule for_each_invariant [OF fe, where I = "\<lambda>s. highest_thresh st \<le> highest_thresh s"])
         (use thresh_body_highest in \<open>force+\<close>)
    moreover have "highest_thresh st' \<le> max mt (highest_thresh st)"
    proof (rule for_each_invariant [OF fe, where I = "\<lambda>s. highest_thresh s \<le> max mt (highest_thresh st)"])
      show "highest_thresh ?s0 \<le> max mt (highest_thresh st)" by simp
    next
      fix t s s'
      assume t: "t \<in> set (np_linspace 0 mt 1000)" and s: "highest_thresh s \<le> max mt (highest_thresh st)"
        and b: "thresh_body link cg c g t s = Inr s'"
      from linspace_bounds [OF assms(2) t] have "t \<le> mt" by simp
      with thresh_body_highest [OF b] s show "highest_thresh s' \<le> max mt (highest_thresh st)"
        by auto
    qed
    ultimately show ?thesis by simp
  qed
qed

lemma complexes_highest_bounds:
  assumes "for_each (complex_body link cg mt) complexes st = Inr st'" and "0 \<le> mt"
  shows "highest_thresh st \<le> highest_thresh st' \<and> highest_thresh st' \<le> max mt (highest_thresh st)"
proof -
  have "highest_thresh st \<le> highest_thresh st'"
    by (rule for_each_invariant [OF assms(1), where I = "\<lambda>s. highest_thresh st \<le> highest_thresh s"])
       (use complex_body_highest_bounds [OF _ assms(2)] in \<open>force+\<close>)
  moreover have "highest_thresh st' \<le> max mt (highest_thresh st)"
    by (rule for_each_invariant [OF assms(1), where I = "\<lambda>s. highest_thresh s \<le> max mt (highest_thresh st)"])
       (use complex_body_highest_bounds [OF _ assms(2)] in \<open>force+\<close>)
  ultimately show ?thesis by simp
qed

lemma label_body_untouched:
  assumes "label_body cg c g t clusters l st = Inr st'" and "untouched st"
  shows "untouched st'"
  using label_body_step [OF assms(1)] assms(2)
  by (auto simp: untouched_def record_match_def split: if_splits)

lemma thresh_body_untouched:
  assumes "thresh_body link cg c g t st = Inr st'" and "untouched st"
  shows "untouched st'"
proof -
  from assms have fe: "for_each (label_body cg c g t (fcluster link t)) (np_unique (fcluster link t)) st = Inr st'"
    by (simp add: thresh_body_def Let_def)
  show ?thesis
    by (rule for_each_invariant [OF fe, where I = untouched])
       (use assms(2) label_body_untouched in \<open>blast+\<close>)
qed

lemma complex_body_untouched:
  assumes "complex_body link cg mt x st = Inr st'" and "untouched st"
  shows "untouched st'"
proof -
  obtain c g where x: "x = (c, g)" by (cases x)
  show ?thesis
  proof (cases "length (np_intersect1d g cg) < 2")
    case True
    with assms x show ?thesis by (simp add: complex_body_def)
  next
    case False
    let ?s0 = "st\<lparr>best_jaccard := 0\<rparr>"
    from False assms x have fe:
      "for_each (thresh_body link cg c g) (np_linspace 0 mt 1000) ?s0 = Inr st'"
      by (simp add: complex_body_def)
    have "untouched ?s0" using assms(2) by (simp add: untouched_def)
    then show ?thesis
      by (rule for_each_invariant [OF fe, where I = untouched])
         (use thresh_body_untouched in \<open>blast+\<close>)
  qed
qed

lemma scan_complexes_untouched:
  assumes "scan_complexes link cg complexes = Inr st"
  shows "untouched st"
proof -
  from assms obtain mt where
    fe: "for_each (complex_body link cg mt) complexes \<lparr>highest_thresh = 0, best_jaccard = 0, assignments = []\<rparr> = Inr st"
    by (auto simp: scan_complexes_def and_then_def split: sum.splits)
  show ?thesis
    by (rule for_each_invariant [OF fe, where I = untouched])
       (use complex_body_untouched in \<open>auto simp: untouched_def\<close>)
qed

section \<open>The loop over the complexes\<close>

lemma complexes_assignments:
  assumes "fits link cg"
  shows "distinct (map fst complexes) \<Longrightarrow> fst ` set (assignments st) \<inter> fst ` set complexes = {} \<Longrightarrow>
         \<exists>st'. for_each (complex_body link cg mt) complexes st = Inr st' \<and>
               assignments st' = assignments st @ captured link cg mt complexes \<and>
               highest_thresh st \<le> highest_thresh st'"
proof (induction complexes arbitrary: st)
  case Nil
  then show ?case by (simp add: captured_def map_filter_simps)
next
  case (Cons x xs)
  obtain c g where x: "x = (c, g)" by (cases x)
  obtain st1 where st1: "complex_body link cg mt (c, g) st = Inr st1"
    by (simp add: complex_body_pure [OF assms])
  have a1: "assignments st1 = (case best_match link cg mt g of None \<Rightarrow> assignments st
                            | Some w \<Rightarrow> AList.update c (snd w) (assignments st))"
    by (rule complex_body_assignments [OF assms st1])
  have fresh: "c \<notin> fst ` set (assignments st)" using Cons.prems(2) x by auto
  have a1': "assignments st1 = assignments st @ captured link cg mt [(c, g)]"
    using a1 fresh by (auto simp: captured_def map_filter_simps update_fresh split: option.splits)
  have keys1: "fst ` set (assignments st1) \<subseteq> insert c (fst ` set (assignments st))"
    using a1 by (auto simp: dom_update split: option.splits)
  have "c \<notin> fst ` set xs" using Cons.prems(1) x by simp
  moreover have "fst ` set (assignments st) \<inter> fst ` set xs = {}"
    using Cons.prems(2) by auto
  ultimately have "fst ` set (assignments st1) \<inter> fst ` set xs = {}"
    using keys1 by blast
  moreover have "distinct (map fst xs)" using Cons.prems by simp
  ultimately obtain st' where st': "for_each (complex_body link cg mt) xs st1 = Inr st'"
    "assignments st' = assignments st1 @ captured link cg mt xs"
    "highest_thresh st1 \<le> highest_thresh st'"
    using Cons.IH by blast
  have "captured link cg mt [(c, g)] @ captured link cg mt xs = captured link cg mt ((c, g) # xs)"
    by (simp add: captured_def map_filter_simps split: option.splits)
  moreover have "highest_thresh st \<le> highest_thresh st1"
    by (rule complex_body_highest [OF assms st1])
  ultimately show ?case using st' st1 a1' x by simp
qed

lemma scan_complexes_Inr:
  assumes "fits link cg" and "distinct (map fst complexes)" and "np_max (maxdists link) = Inr mt"
  shows "\<exists>st. scan_complexes link cg complexes = Inr st \<and>
              assignments st = captured link cg mt complexes \<and> 0 \<le> highest_thresh st"
proof -
  let ?s0 = "\<lparr>highest_thresh = 0, best_jaccard = 0, assignments = []\<rparr>"
  have "fst ` set (assignments ?s0) \<inter> fst ` set complexes = {}" by simp
  from complexes_assignments [OF assms(1,2) this, of mt] show ?thesis
    by (auto simp: scan_complexes_def and_then_def assms(3))
qed

lemma scan_complexes_prefix:
  assumes mt: "np_max (maxdists link) = Inr mt" and pos: "0 \<le> mt"
    and s1: "scan_complexes link cg (take n complexes) = Inr st1"
    and s2: "scan_complexes link cg complexes = Inr st2"
  shows "0 \<le> highest_thresh st1 \<and> highest_thresh st1 \<le> highest_thresh st2 \<and>
         highest_thresh st2 \<le> mt"
proof -
  let ?s0 = "\<lparr>highest_thresh = 0, best_jaccard = 0, assignments = []\<rparr>"
  from s1 mt have f1: "for_each (complex_body link cg mt) (take n complexes) ?s0 = Inr st1"
    by (simp add: scan_complexes_def and_then_def)
  from s2 mt have "for_each (complex_body link cg mt) complexes ?s0 = Inr st2"
    by (simp add: scan_complexes_def and_then_def)
  moreover have "for_each (complex_body link cg mt) complexes ?s0 =
      and_then (for_each (complex_body link cg mt) (take n complexes) ?s0)
        (for_each (complex_body link cg mt) (drop n complexes))"
    using for_each_append [of "complex_body link cg mt" "take n complexes" "drop n complexes" ?s0]
    by simp
  ultimately have f2: "for_each (complex_body link cg mt) (drop n complexes) st1 = Inr st2"
    using f1 by (simp add: and_then_def)
  from complexes_highest_bounds [OF f1 pos] have a: "0 \<le> highest_thresh st1" "highest_thresh st1 \<le> mt"
    using pos by simp_all
  from complexes_highest_bounds [OF f2 pos] a have "highest_thresh st1 \<le> highest_thresh st2"
    "highest_thresh st2 \<le> mt" by simp_all
  with a show ?thesis by simp
qed

lemma captured_keys:
  "map fst (captured link cg mt complexes) =
   map fst (filter (\<lambda>(c, g). capturable link cg mt g) complexes)"
proof (induction complexes)
  case Nil
  then show ?case by (simp add: captured_def map_filter_simps)
next
  case (Cons x xs)
  obtain c g where x: "x = (c, g)" by (cases x)
  have "captured link cg mt (x # xs) =
        (case best_match link cg mt g of None \<Rightarrow> captured link cg mt xs
         | Some w \<Rightarrow> (c, snd w) # captured link cg mt xs)"
    by (simp add: captured_def map_filter_simps x split: option.splits)
  then show ?case using Cons best_match_Some_iff [of link cg mt g]
    by (auto simp: x split: option.splits)
qed

lemma set_captured:
  "set (captured link cg mt complexes) =
   {(c, snd w) | c g w. (c, g) \<in> set complexes \<and> best_match link cg mt g = Some w}"
  by (force simp: captured_def map_filter_def)



lemma captured_entry:
  assumes "e \<in> set (captured link cg mt complexes)"
  shows "\<exists>g w. (fst e, g) \<in> set complexes \<and> best_match link cg mt g = Some w \<and> snd e = snd w \<and>
            w \<in> set (candidates link (np_linspace 0 mt 1000))"
proof -
  from assms obtain c g w where e: "e = (c, snd w)" "(c, g) \<in> set complexes"
      "best_match link cg mt g = Some w"
    unfolding set_captured by blast
  from e(3) have "winner (match_key cg g) 0 (candidates link (np_linspace 0 mt 1000)) = Some w"
    by (simp add: best_match_def split: if_splits)
  from winner_Some [OF this] have "w \<in> set (candidates link (np_linspace 0 mt 1000))" by auto
  with e show ?thesis by (intro exI [of _ g] exI [of _ w]) simp
qed

lemma captured_in_range:
  assumes "fits link cg" and "e \<in> set (captured link cg mt complexes)"
  shows "snd e \<noteq> [] \<and> (\<forall>i \<in> set (snd e). i < length cg)"
proof -
  from captured_entry [OF assms(2)] obtain w where
    w: "snd e = snd w" "w \<in> set (candidates link (np_linspace 0 mt 1000))" by blast
  from candidate_shape [OF w(2)] obtain l where
    l: "2 \<le> length (snd w)" "snd w = np_argwhere (fcluster link (fst w)) l" by blast
  from l(2) have "\<forall>i \<in> set (snd w). i < length (fcluster link (fst w))"
    by (simp add: np_argwhere_iff)
  with assms(1) l(1) w(1) show ?thesis by (auto simp: fits_def)
qed

lemma captured_key_iff:
  assumes "distinct (map fst complexes)" and "(c, g) \<in> set complexes"
  shows "c \<in> fst ` set (captured link cg mt complexes) \<longleftrightarrow> capturable link cg mt g"
proof
  assume "c \<in> fst ` set (captured link cg mt complexes)"
  then obtain e where e: "e \<in> set (captured link cg mt complexes)" "fst e = c" by auto
  from captured_entry [OF e(1)] e(2) obtain g' w where
    g': "(c, g') \<in> set complexes" "best_match link cg mt g' = Some w" by auto
  from assms g'(1) have "g' = g" by (meson eq_key_imp_eq_value)
  with g'(2) show "capturable link cg mt g" using best_match_Some_iff [of link cg mt g] by simp
next
  assume "capturable link cg mt g"
  then obtain w where "best_match link cg mt g = Some w"
    using best_match_Some_iff [of link cg mt g] by auto
  with assms(2) have "(c, snd w) \<in> set (captured link cg mt complexes)"
    unfolding set_captured by blast
  then show "c \<in> fst ` set (captured link cg mt complexes)" by force
qed

lemma captured_match:
  assumes keys: "distinct (map fst complexes)" and cg: "(c, g) \<in> set complexes"
    and e: "(c, idxs) \<in> set (captured link cg' mt complexes)"
  shows "\<exists>t. best_match link cg' mt g = Some (t, idxs)"
proof -
  from captured_entry [OF e] obtain g' w where
    g': "(c, g') \<in> set complexes" "best_match link cg' mt g' = Some w" "idxs = snd w"
    by auto
  from keys cg g'(1) have "g' = g" by (meson eq_key_imp_eq_value)
  with g'(2,3) show ?thesis by (cases w) simp
qed

section \<open>The labels\<close>

lemma enumerate_labels:
  "map (\<lambda>(i, (complex, idxs)). (complex, int i + 1)) (enumerate k asg) =
   zip (map fst asg) (map int [Suc k..<Suc k + length asg])"
proof (induction asg arbitrary: k)
  case Nil
  then show ?case by simp
next
  case (Cons e asg)
  obtain c idxs where e: "e = (c, idxs)" by (cases e)
  have "Suc k < Suc k + length (e # asg)" by simp
  then have "[Suc k..<Suc k + length (e # asg)] =
        Suc k # [Suc (Suc k)..<Suc k + length (e # asg)]"
    by (rule upt_conv_Cons)
  moreover have "Suc k + length (e # asg) = Suc (Suc k) + length asg" by simp
  ultimately have "[Suc k..<Suc k + length (e # asg)] =
        Suc k # [Suc (Suc k)..<Suc (Suc k) + length asg]"
    by (simp only:)
  with Cons [of "Suc k"] e show ?case by (simp del: upt_Suc)
qed

lemma captured_labels_zip:
  "captured_labels asg = zip (map fst asg) (map int [1..<Suc (length asg)])"
proof -
  have "[Suc 0..<Suc 0 + length asg] = [1..<Suc (length asg)]" by simp
  with enumerate_labels [of 0 asg] show ?thesis by (simp only: captured_labels_def)
qed

lemma captured_labels_bound:
  assumes "e \<in> set (captured_labels asg)"
  shows "1 \<le> snd e \<and> snd e \<le> int (length asg)"
proof -
  from assms have "e \<in> set (zip (map fst asg) (map int [1..<Suc (length asg)]))"
    by (simp only: captured_labels_zip)
  then have "snd e \<in> set (map int [1..<Suc (length asg)])"
    by (metis in_set_zipE prod.collapse)
  then show ?thesis by auto
qed

lemma mark_loop:
  "\<forall>e \<in> set asg. \<forall>i \<in> set (snd e). i < length a \<Longrightarrow>
   \<exists>b. for_each (\<lambda>(i, (complex, idxs)) ga. np_put ga idxs (int i + 1)) (enumerate k asg) a = Inr b \<and>
       length b = length a \<and> (\<forall>i < length a. b ! i = label_at k asg i (a ! i))"
proof (induction asg arbitrary: k a)
  case Nil
  then show ?case by simp
next
  case (Cons e asg)
  obtain c idxs where e: "e = (c, idxs)" by (cases e)
  from Cons.prems e have "\<forall>i \<in> set idxs. i < length a" by auto
  from np_put_Inr [OF this, of "int k + 1"] obtain b where
    b: "np_put a idxs (int k + 1) = Inr b" "length b = length a"
       "\<forall>i < length a. b ! i = (if i \<in> set idxs then int k + 1 else a ! i)"
    by blast
  from Cons.prems b(2) have "\<forall>e \<in> set asg. \<forall>i \<in> set (snd e). i < length b" by simp
  from Cons.IH [OF this, of "Suc k"] obtain b' where
    b': "for_each (\<lambda>(i, (complex, idxs)) ga. np_put ga idxs (int i + 1)) (enumerate (Suc k) asg) b = Inr b'"
        "length b' = length b" "\<forall>i < length b. b' ! i = label_at (Suc k) asg i (b ! i)"
    by blast
  show ?case using b b' e by simp
qed

lemma gene_assignments_Inr:
  assumes "\<forall>e \<in> set asg. \<forall>i \<in> set (snd e). i < n"
  shows "\<exists>ga. gene_assignments n asg = Inr ga \<and> length ga = n \<and>
              (\<forall>i < n. ga ! i = label_at 0 asg i 0)"
proof -
  from assms have "\<forall>e \<in> set asg. \<forall>i \<in> set (snd e). i < length (replicate n (0::int))" by simp
  from mark_loop [OF this, of 0] show ?thesis
    by (auto simp: gene_assignments_def)
qed

lemma label_at_cases:
  "(label_at k asg i d = d \<and> (\<forall>e \<in> set asg. i \<notin> set (snd e))) \<or>
   (\<exists>j < length asg. label_at k asg i d = int (k + j) + 1 \<and> i \<in> set (snd (asg ! j)) \<and>
        (\<forall>j'. j < j' \<and> j' < length asg \<longrightarrow> i \<notin> set (snd (asg ! j'))))"
proof (induction asg arbitrary: k d)
  case Nil
  then show ?case by simp
next
  case (Cons e asg)
  let ?d = "if i \<in> set (snd e) then int k + 1 else d"
  from Cons.IH [of "Suc k" ?d] show ?case
  proof
    assume a: "label_at (Suc k) asg i ?d = ?d \<and> (\<forall>e \<in> set asg. i \<notin> set (snd e))"
    show ?thesis
    proof (cases "i \<in> set (snd e)")
      case True
      have "\<forall>j'. 0 < j' \<and> j' < length (e # asg) \<longrightarrow> i \<notin> set (snd ((e # asg) ! j'))"
      proof (intro allI impI)
        fix j' assume "0 < j' \<and> j' < length (e # asg)"
        then obtain m where "j' = Suc m" "m < length asg" by (cases j') auto
        with a show "i \<notin> set (snd ((e # asg) ! j'))" by simp
      qed
      with True a have "0 < length (e # asg) \<and> label_at k (e # asg) i d = int (k + 0) + 1 \<and>
          i \<in> set (snd ((e # asg) ! 0)) \<and>
          (\<forall>j'. 0 < j' \<and> j' < length (e # asg) \<longrightarrow> i \<notin> set (snd ((e # asg) ! j')))"
        by simp
      then show ?thesis by blast
    next
      case False
      with a show ?thesis by simp
    qed
  next
    assume "\<exists>j < length asg. label_at (Suc k) asg i ?d = int (Suc k + j) + 1 \<and>
        i \<in> set (snd (asg ! j)) \<and> (\<forall>j'. j < j' \<and> j' < length asg \<longrightarrow> i \<notin> set (snd (asg ! j')))"
    then obtain j where j: "j < length asg" "label_at (Suc k) asg i ?d = int (Suc k + j) + 1"
        "i \<in> set (snd (asg ! j))" "\<forall>j'. j < j' \<and> j' < length asg \<longrightarrow> i \<notin> set (snd (asg ! j'))"
      by blast
    have "\<forall>j'. Suc j < j' \<and> j' < length (e # asg) \<longrightarrow> i \<notin> set (snd ((e # asg) ! j'))"
    proof (intro allI impI)
      fix j' assume h: "Suc j < j' \<and> j' < length (e # asg)"
      then obtain m where "j' = Suc m" "j < m" "m < length asg" by (cases j') auto
      with j(4) show "i \<notin> set (snd ((e # asg) ! j'))" by simp
    qed
    with j have "Suc j < length (e # asg) \<and> label_at k (e # asg) i d = int (k + Suc j) + 1 \<and>
          i \<in> set (snd ((e # asg) ! Suc j)) \<and>
          (\<forall>j'. Suc j < j' \<and> j' < length (e # asg) \<longrightarrow> i \<notin> set (snd ((e # asg) ! j')))"
      by simp
    then show ?thesis by blast
  qed
qed

lemma label_at_bounds: "0 \<le> label_at 0 asg i 0 \<and> label_at 0 asg i 0 \<le> int (length asg)"
  using label_at_cases [of 0 asg i 0] by auto

lemma label_at_zero_iff: "label_at 0 asg i 0 = 0 \<longleftrightarrow> (\<forall>e \<in> set asg. i \<notin> set (snd e))"
proof -
  from label_at_cases [of 0 asg i 0] show ?thesis
  proof
    assume "label_at 0 asg i 0 = 0 \<and> (\<forall>e \<in> set asg. i \<notin> set (snd e))"
    then show ?thesis by simp
  next
    assume "\<exists>j < length asg. label_at 0 asg i 0 = int (0 + j) + 1 \<and> i \<in> set (snd (asg ! j)) \<and>
        (\<forall>j'. j < j' \<and> j' < length asg \<longrightarrow> i \<notin> set (snd (asg ! j')))"
    then obtain j where j: "j < length asg" "label_at 0 asg i 0 = int j + 1"
      "i \<in> set (snd (asg ! j))" by auto
    from j(1) have "asg ! j \<in> set asg" by simp
    with j(3) have "\<not> (\<forall>e \<in> set asg. i \<notin> set (snd e))" by blast
    moreover from j(2) have "label_at 0 asg i 0 \<noteq> 0" by simp
    ultimately show ?thesis by simp
  qed
qed

lemma label_at_last:
  assumes "asg \<noteq> []" and "i \<in> set (snd (last asg))"
  shows "label_at 0 asg i 0 = int (length asg)"
proof -
  have l: "last asg = asg ! (length asg - 1)" using assms(1) by (simp add: last_conv_nth)
  from label_at_cases [of 0 asg i 0] show ?thesis
  proof
    assume "label_at 0 asg i 0 = 0 \<and> (\<forall>e \<in> set asg. i \<notin> set (snd e))"
    with assms show ?thesis using last_in_set by blast
  next
    assume "\<exists>j < length asg. label_at 0 asg i 0 = int (0 + j) + 1 \<and> i \<in> set (snd (asg ! j)) \<and>
        (\<forall>j'. j < j' \<and> j' < length asg \<longrightarrow> i \<notin> set (snd (asg ! j')))"
    then obtain j where j: "j < length asg" "label_at 0 asg i 0 = int j + 1"
      "\<forall>j'. j < j' \<and> j' < length asg \<longrightarrow> i \<notin> set (snd (asg ! j'))" by auto
    have "\<not> j < length asg - 1"
    proof
      assume "j < length asg - 1"
      with j(3) assms(1) have "i \<notin> set (snd (asg ! (length asg - 1)))" by simp
      with assms(2) l show False by simp
    qed
    with j(1) have "j = length asg - 1" by simp
    with j(2) assms(1) show ?thesis by (cases asg) auto
  qed
qed

lemma label_at_last_entry:
  assumes "label_at 0 asg i 0 \<noteq> 0"
  shows "\<exists>j < length asg. label_at 0 asg i 0 = int j + 1 \<and> i \<in> set (snd (asg ! j)) \<and>
           (\<forall>j'. j < j' \<and> j' < length asg \<longrightarrow> i \<notin> set (snd (asg ! j')))"
  using label_at_cases [of 0 asg i 0] assms by auto


lemma max_gene_assignments:
  assumes n: "0 < n" and len: "length ga = n" and nth: "\<forall>i < n. ga ! i = label_at 0 asg i 0"
    and inr: "\<forall>e \<in> set asg. \<forall>i \<in> set (snd e). i < n" and ne: "\<forall>e \<in> set asg. snd e \<noteq> []"
  shows "np_max ga = Inr (int (length asg))"
proof -
  from n len have ga: "ga \<noteq> []" by auto
  have fin: "finite (set ga)" by simp
  have up: "\<forall>x \<in> set ga. x \<le> int (length asg)"
    using len nth label_at_bounds by (auto simp: in_set_conv_nth)
  have "int (length asg) \<in> set ga"
  proof (cases "asg = []")
    case True
    have "ga ! 0 = 0" using nth n True by simp
    moreover have "ga ! 0 \<in> set ga" using ga by simp
    ultimately show ?thesis using True by simp
  next
    case False
    then have "last asg \<in> set asg" by simp
    with ne inr obtain i where i: "i \<in> set (snd (last asg))" "i < n"
      by (metis last_in_set list.set_intros(1) neq_Nil_conv)
    from label_at_last [OF False i(1)] nth i(2) have "ga ! i = int (length asg)" by simp
    moreover have "ga ! i \<in> set ga" using i(2) len by simp
    ultimately show ?thesis by simp
  qed
  with up fin have "Max (set ga) = int (length asg)"
    by (meson Max_eqI)
  with ga show ?thesis by (simp add: np_max_Max)
qed

lemma keep_captured:
  assumes "length final = length ga"
  shows "\<exists>out. and_then (np_take ga (np_nonzero ga)) (\<lambda>vals. np_put_each final (np_nonzero ga) vals) = Inr out \<and>
           length out = length ga \<and>
           (\<forall>i < length ga. out ! i = (if ga ! i \<noteq> 0 then ga ! i else final ! i))"
proof -
  have t: "np_take ga (np_nonzero ga) = Inr (map (\<lambda>i. ga ! i) (np_nonzero ga))"
    by (simp add: np_take_def np_nonzero_iff)
  have p: "np_put_each final (np_nonzero ga) (map (\<lambda>i. ga ! i) (np_nonzero ga)) =
        Inr (fold (\<lambda>(i, v) b. b[i := v]) (zip (np_nonzero ga) (map (\<lambda>i. ga ! i) (np_nonzero ga))) final)"
    using assms by (simp add: np_put_each_def np_nonzero_iff)
  show ?thesis
    using assms by (simp add: t p and_then_def fold_zip_update_length fold_zip_update_nth np_nonzero_iff)
qed

lemma output_shape:
  assumes fits: "fits link cg" and ne: "cg \<noteq> []"
    and scan: "scan_complexes link cg complexes = Inr st"
    and asg: "assignments st = captured link cg mt complexes"
  shows "\<exists>ga out. gene_assignments (length cg) (assignments st) = Inr ga \<and> length ga = length cg \<and>
           (\<forall>i < length cg. ga ! i = label_at 0 (assignments st) i 0) \<and>
           get_first_level_clusters link cg complexes = Inr out \<and> length out = length cg \<and>
           (\<forall>i < length cg. out ! i =
              (if ga ! i \<noteq> 0 then ga ! i
               else int (length (assignments st)) + 1 + fcluster link (highest_thresh st + 1 / 10) ! i))"
proof -
  let ?n = "length cg"
  have rng: "\<forall>e \<in> set (assignments st). \<forall>i \<in> set (snd e). i < ?n"
    and nonempty: "\<forall>e \<in> set (assignments st). snd e \<noteq> []"
    using captured_in_range [OF fits] asg by auto
  from gene_assignments_Inr [OF rng] obtain ga where
    ga: "gene_assignments ?n (assignments st) = Inr ga" "length ga = ?n"
        "\<forall>i < ?n. ga ! i = label_at 0 (assignments st) i 0"
    by blast
  have n: "0 < ?n" using ne by simp
  have m: "np_max ga = Inr (int (length (assignments st)))"
    by (rule max_gene_assignments [OF n ga(2) ga(3) rng nonempty])
  let ?final = "map (\<lambda>l. int (length (assignments st)) + 1 + l) (fcluster link (highest_thresh st + 1 / 10))"
  have lf: "length ?final = length ga" using fits ga(2) by (simp add: fits_def)
  from keep_captured [OF lf] obtain out where
    out: "and_then (np_take ga (np_nonzero ga)) (\<lambda>vals. np_put_each ?final (np_nonzero ga) vals) = Inr out"
         "length out = length ga"
         "\<forall>i < length ga. out ! i = (if ga ! i \<noteq> 0 then ga ! i else ?final ! i)"
    by blast
  have g: "get_first_level_clusters link cg complexes = Inr out"
    using out(1) by (simp add: get_first_level_clusters_def scan ga(1) m and_then_def Let_def)
  have "\<forall>i < ?n. out ! i =
              (if ga ! i \<noteq> 0 then ga ! i
               else int (length (assignments st)) + 1 + fcluster link (highest_thresh st + 1 / 10) ! i)"
    using out(3) ga(2) lf by simp
  with ga g out(2) show ?thesis by auto
qed

lemma output_cases:
  assumes fits: "fits link cg" and keys: "distinct (map fst complexes)"
    and mt: "np_max (maxdists link) = Inr mt" and ne: "cg \<noteq> []"
  shows "\<exists>st ga out.
           scan_complexes link cg complexes = Inr st \<and>
           assignments st = captured link cg mt complexes \<and>
           gene_assignments (length cg) (assignments st) = Inr ga \<and>
           np_max ga = Inr (int (length (assignments st))) \<and>
           get_first_level_clusters link cg complexes = Inr out \<and> length out = length cg \<and>
           (\<forall>i < length cg.
              (\<exists>j < length (assignments st).
                 i \<in> set (snd (assignments st ! j)) \<and>
                 (\<forall>j'. j < j' \<and> j' < length (assignments st) \<longrightarrow>
                    i \<notin> set (snd (assignments st ! j'))) \<and>
                 out ! i = int j + 1) \<or>
              ((\<forall>e \<in> set (assignments st). i \<notin> set (snd e)) \<and>
               out ! i = int (length (assignments st)) + 1 +
                           fcluster link (highest_thresh st + 1 / 10) ! i))"
proof -
  let ?n = "length cg"
  from scan_complexes_Inr [OF fits keys mt] obtain st where
    st: "scan_complexes link cg complexes = Inr st"
        "assignments st = captured link cg mt complexes" by blast
  from output_shape [OF fits ne st] obtain ga out where
    o: "gene_assignments ?n (assignments st) = Inr ga" "length ga = ?n"
       "\<forall>i < ?n. ga ! i = label_at 0 (assignments st) i 0"
       "get_first_level_clusters link cg complexes = Inr out" "length out = ?n"
       "\<forall>i < ?n. out ! i =
              (if ga ! i \<noteq> 0 then ga ! i
               else int (length (assignments st)) + 1 + fcluster link (highest_thresh st + 1 / 10) ! i)"
    by blast
  have rng: "\<forall>e \<in> set (assignments st). \<forall>i \<in> set (snd e). i < ?n"
    and nonempty: "\<forall>e \<in> set (assignments st). snd e \<noteq> []"
    using captured_in_range [OF fits] st(2) by auto
  have n: "0 < ?n" using ne by simp
  have m: "np_max ga = Inr (int (length (assignments st)))"
    by (rule max_gene_assignments [OF n o(2) o(3) rng nonempty])
  have cases: "(\<exists>j < length (assignments st).
                 i \<in> set (snd (assignments st ! j)) \<and>
                 (\<forall>j'. j < j' \<and> j' < length (assignments st) \<longrightarrow>
                    i \<notin> set (snd (assignments st ! j'))) \<and>
                 out ! i = int j + 1) \<or>
              ((\<forall>e \<in> set (assignments st). i \<notin> set (snd e)) \<and>
               out ! i = int (length (assignments st)) + 1 +
                           fcluster link (highest_thresh st + 1 / 10) ! i)"
    if i: "i < ?n" for i
  proof (cases "label_at 0 (assignments st) i 0 = 0")
    case True
    then have "\<forall>e \<in> set (assignments st). i \<notin> set (snd e)" by (simp add: label_at_zero_iff)
    moreover from True o(3,6) i have
      "out ! i = int (length (assignments st)) + 1 + fcluster link (highest_thresh st + 1 / 10) ! i"
      by simp
    ultimately show ?thesis by blast
  next
    case False
    from label_at_last_entry [OF False] obtain j where
      j: "j < length (assignments st)" "label_at 0 (assignments st) i 0 = int j + 1"
         "i \<in> set (snd (assignments st ! j))"
         "\<forall>j'. j < j' \<and> j' < length (assignments st) \<longrightarrow> i \<notin> set (snd (assignments st ! j'))"
      by blast
    from False o(3,6) i j(2) have "out ! i = int j + 1" by simp
    with j show ?thesis by blast
  qed
  from st o(1,4,5) m cases show ?thesis by blast
qed

lemma label_written:
  assumes rng: "\<forall>e \<in> set asg. \<forall>i \<in> set (snd e). i < n" and j: "j < length asg"
  shows "\<exists>ga. gene_assignments n (take (Suc j) asg) = Inr ga \<and>
              (\<forall>i \<in> set (snd (asg ! j)). i < n \<and> ga ! i = int j + 1)"
proof -
  let ?pre = "take (Suc j) asg"
  have sub: "\<forall>e \<in> set ?pre. \<forall>i \<in> set (snd e). i < n"
    using rng by (meson in_set_takeD)
  from gene_assignments_Inr [OF sub] obtain ga where
    ga: "gene_assignments n ?pre = Inr ga" "\<forall>i < n. ga ! i = label_at 0 ?pre i 0" by blast
  have len: "length ?pre = Suc j" using j by simp
  then have ne: "?pre \<noteq> []" by auto
  have "last ?pre = ?pre ! j" using ne len by (simp add: last_conv_nth)
  then have lst: "last ?pre = asg ! j" by simp
  have "i < n \<and> ga ! i = int j + 1" if i: "i \<in> set (snd (asg ! j))" for i
  proof -
    from j have "asg ! j \<in> set asg" by simp
    with rng i have "i < n" by blast
    moreover from i lst have "i \<in> set (snd (last ?pre))" by simp
    from label_at_last [OF ne this] len have "label_at 0 ?pre i 0 = int j + 1" by simp
    ultimately show ?thesis using ga(2) by simp
  qed
  with ga(1) show ?thesis by blast
qed

lemma last_entry_wins:
  assumes "\<forall>i < n. ga ! i = label_at 0 asg i 0"
  shows "\<forall>i < n.
           ((\<forall>e \<in> set asg. i \<notin> set (snd e)) \<and> ga ! i = 0) \<or>
           (\<exists>j < length asg. i \<in> set (snd (asg ! j)) \<and>
              (\<forall>j'. j < j' \<and> j' < length asg \<longrightarrow> i \<notin> set (snd (asg ! j'))) \<and>
              ga ! i = int j + 1)"
proof (intro allI impI)
  fix i assume i: "i < n"
  show "((\<forall>e \<in> set asg. i \<notin> set (snd e)) \<and> ga ! i = 0) \<or>
           (\<exists>j < length asg. i \<in> set (snd (asg ! j)) \<and>
              (\<forall>j'. j < j' \<and> j' < length asg \<longrightarrow> i \<notin> set (snd (asg ! j'))) \<and>
              ga ! i = int j + 1)"
  proof (cases "label_at 0 asg i 0 = 0")
    case True
    with assms i show ?thesis by (simp add: label_at_zero_iff)
  next
    case False
    from label_at_last_entry [OF False] assms i show ?thesis by auto
  qed
qed

lemma final_labels:
  assumes rng: "\<forall>e \<in> set asg. \<forall>i \<in> set (snd e). i < n"
  shows "\<exists>ga. gene_assignments n asg = Inr ga \<and> length ga = n \<and>
           (\<forall>i < n.
              ((\<forall>e \<in> set asg. i \<notin> set (snd e)) \<and> ga ! i = 0) \<or>
              (\<exists>j < length asg. i \<in> set (snd (asg ! j)) \<and>
                 (\<forall>j'. j < j' \<and> j' < length asg \<longrightarrow> i \<notin> set (snd (asg ! j'))) \<and>
                 ga ! i = int j + 1))"
proof -
  from gene_assignments_Inr [OF rng] obtain ga where
    ga: "gene_assignments n asg = Inr ga" "length ga = n"
        "\<forall>i < n. ga ! i = label_at 0 asg i 0" by blast
  from last_entry_wins [OF ga(3)] ga(1,2) show ?thesis by blast
qed

section \<open>The small linkages, evaluated\<close>

lemma length_three_genes: "length three_genes = 3"
  by (simp add: three_genes_def)

lemma three_genes_nonempty: "three_genes \<noteq> []"
  by (simp add: three_genes_def)

lemma fits_equidistant: "fits equidistant three_genes"
  by (simp add: fits_def equidistant_def three_genes_def)

lemma np_max_equidistant: "np_max (maxdists equidistant) = Inr 1"
  by (simp add: equidistant_def np_max_def)

lemma equidistant_below:
  assumes "t < 1"
  shows "candidates equidistant [t] = []"
  using assms
  by (simp add: candidates_def visits_def equidistant_def np_unique_def np_argwhere_def upt3)

lemma equidistant_top: "candidates equidistant [1] = [(1, [0, 1, 2])]"
  by (simp add: candidates_def visits_def equidistant_def np_unique_def np_argwhere_def upt3)

lemma candidates_equidistant:
  "candidates equidistant (np_linspace 0 1 1000) = [(1, [0, 1, 2])]"
proof -
  have "candidates equidistant (map (\<lambda>i. of_nat i * (1 / 999)) [0..<999]) = []"
  proof (rule candidates_none)
    fix t :: rat
    assume "t \<in> set (map (\<lambda>i. of_nat i * (1 / 999)) [0..<999])"
    then obtain i :: nat where "i < 999" "t = of_nat i * (1 / 999)" by auto
    then have "t < 1" by simp
    then show "candidates equidistant [t] = []" by (rule equidistant_below)
  qed
  then show ?thesis
    by (simp add: linspace_last candidates_append equidistant_top)
qed

lemma score_g0_g1: "cluster_score three_genes [''g0'', ''g1''] [0, Suc 0, 2] = 2 / 3"
  by (simp add: cluster_score_def jaccard_score_def np_intersect1d_def np_union1d_def
      three_genes_def)

lemma present_g0_g1: "length (np_intersect1d [''g0'', ''g1''] three_genes) = 2"
  by (simp add: np_intersect1d_def three_genes_def)

lemma score_all_three: "cluster_score three_genes [''g0'', ''g1'', ''g2''] [0, Suc 0, 2] = 1"
  by (simp add: cluster_score_def jaccard_score_def np_intersect1d_def np_union1d_def
      three_genes_def)

lemma present_all_three: "length (np_intersect1d [''g0'', ''g1'', ''g2''] three_genes) = 3"
  by (simp add: np_intersect1d_def three_genes_def)

lemma scan_one_complex:
  "scan_complexes equidistant three_genes [(''CPX-1'', [''g0'', ''g1''])] =
     Inr \<lparr>highest_thresh = 1, best_jaccard = 2 / 3, assignments = [(''CPX-1'', [0, 1, 2])]\<rparr>"
  apply (simp add: scan_complexes_def and_then_def np_max_equidistant complex_body_pure [OF fits_equidistant]
      candidates_equidistant present_g0_g1)
  apply (simp add: match_step_def record_match_def score_g0_g1)
  done

lemma argwhere_all: "np_argwhere [1, 1, 1] 1 = [0, Suc 0, 2]"
  by (simp add: np_argwhere_def)

lemma label_step_equidistant:
  "label_body three_genes ''CPX-1'' [''g0'', ''g1''] 1 [1, 1, 1] 1
     \<lparr>highest_thresh = 0, best_jaccard = 0, assignments = []\<rparr> =
   Inr \<lparr>highest_thresh = 1, best_jaccard = 2 / 3, assignments = [(''CPX-1'', [0, 1, 2])]\<rparr>"
proof -
  have "length [1, 1, (1::int)] \<le> length three_genes" by (simp add: three_genes_def)
  from label_body_pure [OF this] show ?thesis
    by (simp add: argwhere_all match_step_def record_match_def score_g0_g1)
qed

lemma scan_nested_pair:
  "scan_complexes equidistant three_genes
     [(''CPX-1'', [''g0'', ''g1'', ''g2'']), (''CPX-2'', [''g0'', ''g1''])] =
     Inr \<lparr>highest_thresh = 1, best_jaccard = 2 / 3,
          assignments = [(''CPX-1'', [0, 1, 2]), (''CPX-2'', [0, 1, 2])]\<rparr>"
  apply (simp add: scan_complexes_def and_then_def np_max_equidistant
      complex_body_pure [OF fits_equidistant] candidates_equidistant present_g0_g1
      present_all_three)
  apply (simp add: match_step_def record_match_def score_g0_g1 score_all_three)
  done


lemma output_nested_pair:
  "get_first_level_clusters equidistant three_genes
     [(''CPX-1'', [''g0'', ''g1'', ''g2'']), (''CPX-2'', [''g0'', ''g1''])] = Inr [2, 2, 2]"
  apply (simp add: get_first_level_clusters_def scan_nested_pair and_then_def length_three_genes)
  apply (simp add: gene_assignments_def and_then_def np_max_def
      np_put_def np_take_def np_put_each_def np_nonzero_def upt3 equidistant_def numeral_3_eq_3)
  done

lemma fits_pair_first: "fits pair_first three_genes"
  by (simp add: fits_def pair_first_def three_genes_def)

lemma np_max_pair_first: "np_max (maxdists pair_first) = Inr 2"
  by (simp add: pair_first_def np_max_def)

lemma labelled_pair_first: "labelled_from_one pair_first"
  by (simp add: labelled_from_one_def pair_first_def)

lemma pair_first_below: "t < 1 \<Longrightarrow> candidates pair_first [t] = []"
  by (simp add: candidates_def visits_def pair_first_def np_unique_def np_argwhere_def upt3)

lemma pair_first_at: "candidates pair_first [1000 / 999] = [(1000 / 999, [0, 1])]"
  by (simp add: candidates_def visits_def pair_first_def np_unique_def np_argwhere_def upt3)

lemma pair_first_clusters:
  assumes "v \<in> set (candidates pair_first ts)"
  shows "snd v = [0, Suc 0] \<or> snd v = [0, Suc 0, 2]"
proof -
  from candidate_shape [OF assms] obtain l where
    l: "2 \<le> length (snd v)" "l \<in> set (fcluster pair_first (fst v))"
       "snd v = np_argwhere (fcluster pair_first (fst v)) l"
    by blast
  consider "fst v < 1" | "\<not> fst v < 1" "fst v < 2" | "\<not> fst v < 2" by linarith
  then show ?thesis
  proof cases
    case 1
    with l show ?thesis by (auto simp: pair_first_def np_argwhere_def upt3)
  next
    case 2
    with l show ?thesis by (auto simp: pair_first_def np_argwhere_def upt3)
  next
    case 3
    with l show ?thesis by (auto simp: pair_first_def np_argwhere_def upt3)
  qed
qed

lemma candidates_pair_first:
  "\<exists>rest. candidates pair_first (np_linspace 0 2 1000) = (1000 / 999, [0, 1]) # rest"
proof -
  have "candidates pair_first (map (\<lambda>i. of_nat i * (2 / 999)) [0..<500]) = []"
  proof (rule candidates_none)
    fix t :: rat
    assume "t \<in> set (map (\<lambda>i. of_nat i * (2 / 999)) [0..<500])"
    then obtain i :: nat where "i < 500" "t = of_nat i * (2 / 999)" by auto
    then have "t < 1" by simp
    then show "candidates pair_first [t] = []" by (rule pair_first_below)
  qed
  moreover have "candidates pair_first ((1000 / 999) # map (\<lambda>i. of_nat i * (2 / 999)) [501..<1000]) =
      candidates pair_first [1000 / 999] @
      candidates pair_first (map (\<lambda>i. of_nat i * (2 / 999)) [501..<1000])"
    by (rule candidates_Cons)
  ultimately show ?thesis
    by (simp add: linspace_two_split candidates_append pair_first_at)
qed

lemma pair_first_capture:
  "complex_body pair_first three_genes 2 (''CPX-1'', [''g0'', ''g1''])
     \<lparr>highest_thresh = 0, best_jaccard = 0, assignments = []\<rparr> =
   Inr \<lparr>highest_thresh = 1000 / 999, best_jaccard = 1, assignments = [(''CPX-1'', [0, 1])]\<rparr>"
proof -
  let ?s1 = "\<lparr>highest_thresh = 1000 / 999, best_jaccard = 1, assignments = [(''CPX-1'', [0, 1])]\<rparr>"
  from candidates_pair_first obtain rest where
    cs: "candidates pair_first (np_linspace 0 2 1000) = (1000 / 999, [0, 1]) # rest" by blast
  have first: "match_step three_genes ''CPX-1'' [''g0'', ''g1''] (1000 / 999, [0, 1])
      \<lparr>highest_thresh = 0, best_jaccard = 0, assignments = []\<rparr> = ?s1"
    by (simp add: match_step_def record_match_def cluster_score_def jaccard_score_def
        np_intersect1d_def np_union1d_def three_genes_def)
  have "fold (match_step three_genes ''CPX-1'' [''g0'', ''g1'']) rest ?s1 = ?s1"
    by (rule fold_match_step_settled) (simp_all add: match_key_le_one)
  with first show ?thesis
    by (simp add: complex_body_pure [OF fits_pair_first] present_g0_g1 cs)
qed

lemma pair_first_miss:
  assumes "0 \<le> best_jaccard st"
  shows "complex_body pair_first three_genes 2 (''CPX-3'', [''g1'', ''g2'', ''h0'', ''h1'', ''h2'']) st =
         Inr (st\<lparr>best_jaccard := 0\<rparr>)"
proof -
  let ?g = "[''g1'', ''g2'', ''h0'', ''h1'', ''h2'']"
  have two: "length (np_intersect1d ?g three_genes) = 2"
    by (simp add: np_intersect1d_def three_genes_def)
  have low: "\<forall>v \<in> set (candidates pair_first (np_linspace 0 2 1000)).
      match_key three_genes ?g v \<le> best_jaccard (st\<lparr>best_jaccard := 0\<rparr>)"
  proof
    fix v assume "v \<in> set (candidates pair_first (np_linspace 0 2 1000))"
    from pair_first_clusters [OF this] show
      "match_key three_genes ?g v \<le> best_jaccard (st\<lparr>best_jaccard := 0\<rparr>)"
      by (auto simp: match_key_def gated_def cluster_score_def jaccard_score_def
          np_intersect1d_def np_union1d_def three_genes_def)
  qed
  have "fold (match_step three_genes ''CPX-3'' ?g) (candidates pair_first (np_linspace 0 2 1000))
      (st\<lparr>best_jaccard := 0\<rparr>) = st\<lparr>best_jaccard := 0\<rparr>"
    by (rule fold_match_step_settled [OF _ low]) simp
  then show ?thesis
    by (simp add: complex_body_pure [OF fits_pair_first] two)
qed

lemma scan_pair_first:
  "scan_complexes pair_first three_genes
     [(''CPX-1'', [''g0'', ''g1'']), (''CPX-3'', [''g1'', ''g2'', ''h0'', ''h1'', ''h2''])] =
   Inr \<lparr>highest_thresh = 1000 / 999, best_jaccard = 0, assignments = [(''CPX-1'', [0, 1])]\<rparr>"
  by (simp add: scan_complexes_def and_then_def np_max_pair_first pair_first_capture pair_first_miss)

lemma output_pair_first:
  "get_first_level_clusters pair_first three_genes
     [(''CPX-1'', [''g0'', ''g1'']), (''CPX-3'', [''g1'', ''g2'', ''h0'', ''h1'', ''h2''])] =
   Inr [1, 1, 4]"
  apply (simp add: get_first_level_clusters_def scan_pair_first and_then_def length_three_genes)
  apply (simp add: gene_assignments_def and_then_def np_max_def
      np_put_def np_take_def np_put_each_def np_nonzero_def upt3 pair_first_def numeral_3_eq_3)
  done

lemma not_capturable_cpx3:
  "\<not> capturable pair_first three_genes 2 [''g1'', ''g2'', ''h0'', ''h1'', ''h2'']"
proof -
  let ?g = "[''g1'', ''g2'', ''h0'', ''h1'', ''h2'']"
  have "\<forall>v \<in> set (candidates pair_first (np_linspace 0 2 1000)). match_key three_genes ?g v \<le> 0"
  proof
    fix v assume "v \<in> set (candidates pair_first (np_linspace 0 2 1000))"
    from pair_first_clusters [OF this] show "match_key three_genes ?g v \<le> 0"
      by (auto simp: match_key_def gated_def cluster_score_def jaccard_score_def
          np_intersect1d_def np_union1d_def three_genes_def)
  qed
  then have "best_match pair_first three_genes 2 ?g = None"
    by (simp add: best_match_def winner_None)
  then show ?thesis using best_match_Some_iff [of pair_first three_genes 2 ?g] by simp
qed

lemma scan_nested_skip:
  "scan_complexes equidistant three_genes
     [(''CPX-1'', [''g0'', ''g1'', ''g2'']), (''CPX-2'', [''g0'', ''g1'']),
      (''CPX-9'', [''g2'', ''h0''])] =
     Inr \<lparr>highest_thresh = 1, best_jaccard = 2 / 3,
          assignments = [(''CPX-1'', [0, 1, 2]), (''CPX-2'', [0, 1, 2])]\<rparr>"
proof -
  have skip: "length (np_intersect1d [''g2'', ''h0''] three_genes) < 2"
    by (simp add: np_intersect1d_def three_genes_def)
  show ?thesis
    apply (simp add: scan_complexes_def and_then_def np_max_equidistant
      complex_body_pure [OF fits_equidistant] candidates_equidistant present_g0_g1
      present_all_three skip)
    apply (simp add: match_step_def record_match_def score_g0_g1 score_all_three)
    done
qed

lemma labels_nested_first:
  "gene_assignments (length three_genes)
     (take (Suc 0) [(''CPX-1'', [0, 1, 2]), (''CPX-2'', [0, 1, 2])]) = Inr [1, 1, 1]"
  by (simp add: gene_assignments_def np_put_def three_genes_def)

lemma labels_nested:
  "gene_assignments (length three_genes) [(''CPX-1'', [0, 1, 2]), (''CPX-2'', [0, 1, 2])] =
     Inr [2, 2, 2]"
  by (simp add: gene_assignments_def np_put_def three_genes_def)


section \<open>The properties\<close>

text \<open>
  C1. When the linkage labels every item at every threshold, the complexes in
  \<^verbatim>\<open>assignments\<close> after the scan are, in the order of the iteration, exactly those with at
  least two genes among the items and, at one of the 1000 thresholds, a cluster of at least
  two members of Jaccard score 0.5 or more. A complex with fewer than two genes among the
  items is not captured, and its turn leaves the state as it was. The loop over
  \<^verbatim>\<open>assignments\<close> then gives the captured complexes the labels 1, 2, 3, ... in that order:
  run up to and including its \<open>j\<close>-th entry (counted from 0), it has written \<open>j + 1\<close>
  at every index recorded for that entry, of which there is at least one. A later entry
  may write over it: when the loop is over, an index in no recorded set holds 0, and any
  other index holds the label of the last entry whose set contains it. With at least one
  item, get\_first\_level\_clusters returns that label at every such index.
\<close>

theorem captured_iff_capturable:
  assumes fits: "fits link common_genes" and keys: "distinct (map fst complexes)"
    and mt: "np_max (maxdists link) = Inr max_thresh"
  shows "\<exists>st ga. scan_complexes link common_genes complexes = Inr st \<and>
           map fst (assignments st) =
             map fst (filter (\<lambda>(c, g). capturable link common_genes max_thresh g) complexes) \<and>
           (\<forall>(c, g) \<in> set complexes.
              (c \<in> fst ` set (assignments st)) = capturable link common_genes max_thresh g) \<and>
           (\<forall>(c, g) \<in> set complexes. card (set g \<inter> set common_genes) < 2 \<longrightarrow>
              c \<notin> fst ` set (assignments st) \<and>
              (\<forall>s. complex_body link common_genes max_thresh (c, g) s = Inr s)) \<and>
           (\<forall>j < length (assignments st).
              snd (assignments st ! j) \<noteq> [] \<and>
              (\<exists>ga'. gene_assignments (length common_genes) (take (Suc j) (assignments st)) =
                       Inr ga' \<and>
                     (\<forall>i \<in> set (snd (assignments st ! j)).
                        i < length common_genes \<and> ga' ! i = int j + 1))) \<and>
           gene_assignments (length common_genes) (assignments st) = Inr ga \<and>
           length ga = length common_genes \<and>
           (\<forall>i < length common_genes.
              ((\<forall>e \<in> set (assignments st). i \<notin> set (snd e)) \<and> ga ! i = 0) \<or>
              (\<exists>j < length (assignments st).
                 i \<in> set (snd (assignments st ! j)) \<and>
                 (\<forall>j'. j < j' \<and> j' < length (assignments st) \<longrightarrow>
                    i \<notin> set (snd (assignments st ! j'))) \<and>
                 ga ! i = int j + 1)) \<and>
           (common_genes \<noteq> [] \<longrightarrow>
              (\<exists>out. get_first_level_clusters link common_genes complexes = Inr out \<and>
                 length out = length common_genes \<and>
                 (\<forall>i < length common_genes. ga ! i \<noteq> 0 \<longrightarrow> out ! i = ga ! i)))"
proof -
  let ?n = "length common_genes"
  from scan_complexes_Inr [OF fits keys mt] obtain st where
    st: "scan_complexes link common_genes complexes = Inr st"
        "assignments st = captured link common_genes max_thresh complexes"
    by blast
  have a: "map fst (assignments st) =
             map fst (filter (\<lambda>(c, g). capturable link common_genes max_thresh g) complexes)"
    by (simp add: st(2) captured_keys)
  have c: "\<forall>(c, g) \<in> set complexes.
              (c \<in> fst ` set (assignments st)) = capturable link common_genes max_thresh g"
  proof (intro ballI, clarify)
    fix c g
    assume "(c, g) \<in> set complexes"
    from captured_key_iff [OF keys this]
    show "(c \<in> fst ` set (assignments st)) = capturable link common_genes max_thresh g"
      by (simp add: st(2))
  qed
  have d: "\<forall>(c, g) \<in> set complexes. card (set g \<inter> set common_genes) < 2 \<longrightarrow>
              c \<notin> fst ` set (assignments st) \<and>
              (\<forall>s. complex_body link common_genes max_thresh (c, g) s = Inr s)"
  proof (intro ballI, clarify)
    fix c g
    assume cg: "(c, g) \<in> set complexes" and few: "card (set g \<inter> set common_genes) < 2"
    from few have "\<not> capturable link common_genes max_thresh g"
      using capturable_two_genes by fastforce
    with captured_key_iff [OF keys cg] have "c \<notin> fst ` set (assignments st)"
      by (simp add: st(2))
    moreover have "\<forall>s. complex_body link common_genes max_thresh (c, g) s = Inr s"
      using few by (simp add: complex_body_skip)
    ultimately show "c \<notin> fst ` set (assignments st) \<and>
              (\<forall>s. complex_body link common_genes max_thresh (c, g) s = Inr s)" by simp
  qed
  have rng: "\<forall>e \<in> set (assignments st). \<forall>i \<in> set (snd e). i < ?n"
    and nonempty: "\<forall>e \<in> set (assignments st). snd e \<noteq> []"
    using captured_in_range [OF fits] st(2) by auto
  have w: "\<forall>j < length (assignments st).
              snd (assignments st ! j) \<noteq> [] \<and>
              (\<exists>ga'. gene_assignments ?n (take (Suc j) (assignments st)) = Inr ga' \<and>
                     (\<forall>i \<in> set (snd (assignments st ! j)). i < ?n \<and> ga' ! i = int j + 1))"
  proof (intro allI impI)
    fix j assume j: "j < length (assignments st)"
    then have "assignments st ! j \<in> set (assignments st)" by simp
    with nonempty have "snd (assignments st ! j) \<noteq> []" by blast
    with label_written [OF rng j]
    show "snd (assignments st ! j) \<noteq> [] \<and>
              (\<exists>ga'. gene_assignments ?n (take (Suc j) (assignments st)) = Inr ga' \<and>
                     (\<forall>i \<in> set (snd (assignments st ! j)). i < ?n \<and> ga' ! i = int j + 1))"
      by blast
  qed
  from final_labels [OF rng] obtain ga where
    ga: "gene_assignments ?n (assignments st) = Inr ga" "length ga = ?n"
        "\<forall>i < ?n.
              ((\<forall>e \<in> set (assignments st). i \<notin> set (snd e)) \<and> ga ! i = 0) \<or>
              (\<exists>j < length (assignments st).
                 i \<in> set (snd (assignments st ! j)) \<and>
                 (\<forall>j'. j < j' \<and> j' < length (assignments st) \<longrightarrow>
                    i \<notin> set (snd (assignments st ! j'))) \<and>
                 ga ! i = int j + 1)"
    by blast
  have o: "common_genes \<noteq> [] \<longrightarrow>
              (\<exists>out. get_first_level_clusters link common_genes complexes = Inr out \<and>
                 length out = ?n \<and> (\<forall>i < ?n. ga ! i \<noteq> 0 \<longrightarrow> out ! i = ga ! i))"
  proof
    assume ne: "common_genes \<noteq> []"
    from output_shape [OF fits ne st] obtain ga2 out where
      o: "gene_assignments ?n (assignments st) = Inr ga2"
         "get_first_level_clusters link common_genes complexes = Inr out" "length out = ?n"
         "\<forall>i < ?n. out ! i =
              (if ga2 ! i \<noteq> 0 then ga2 ! i
               else int (length (assignments st)) + 1 +
                    fcluster link (highest_thresh st + 1 / 10) ! i)"
      by blast
    from o(1) ga(1) have "ga2 = ga" by simp
    with o(4) have "\<forall>i < ?n. ga ! i \<noteq> 0 \<longrightarrow> out ! i = ga ! i" by simp
    with o(2,3) show "\<exists>out. get_first_level_clusters link common_genes complexes = Inr out \<and>
                 length out = ?n \<and> (\<forall>i < ?n. ga ! i \<noteq> 0 \<longrightarrow> out ! i = ga ! i)"
      by blast
  qed
  from st(1) a c d w ga o show ?thesis by blast
qed

theorem captured_iff_capturable_witness:
  "fits equidistant three_genes \<and>
   distinct (map fst [(''CPX-1'', [''g0'', ''g1'', ''g2'']), (''CPX-2'', [''g0'', ''g1'']),
                      (''CPX-9'', [''g2'', ''h0''])]) \<and>
   np_max (maxdists equidistant) = Inr 1 \<and>
   (\<exists>st ga. scan_complexes equidistant three_genes
            [(''CPX-1'', [''g0'', ''g1'', ''g2'']), (''CPX-2'', [''g0'', ''g1'']),
             (''CPX-9'', [''g2'', ''h0''])] = Inr st \<and>
         map fst (assignments st) = [''CPX-1'', ''CPX-2''] \<and>
         gene_assignments (length three_genes) (take (Suc 0) (assignments st)) = Inr [1, 1, 1] \<and>
         gene_assignments (length three_genes) (assignments st) = Inr ga \<and>
         ga = [2, 2, 2])"
proof -
  let ?cx = "[(''CPX-1'', [''g0'', ''g1'', ''g2'']), (''CPX-2'', [''g0'', ''g1'']),
              (''CPX-9'', [''g2'', ''h0''])]"
  have keys: "distinct (map fst ?cx)" by simp
  from captured_iff_capturable [OF fits_equidistant keys np_max_equidistant] obtain st ga where
    st: "scan_complexes equidistant three_genes ?cx = Inr st"
        "gene_assignments (length three_genes) (assignments st) = Inr ga"
    by blast
  from st(1) scan_nested_skip have
    a: "assignments st = [(''CPX-1'', [0, 1, 2]), (''CPX-2'', [0, 1, 2])]" by auto
  from st(2) a labels_nested have g: "ga = [2, 2, 2]" by simp
  have "\<exists>st ga. scan_complexes equidistant three_genes ?cx = Inr st \<and>
         map fst (assignments st) = [''CPX-1'', ''CPX-2''] \<and>
         gene_assignments (length three_genes) (take (Suc 0) (assignments st)) = Inr [1, 1, 1] \<and>
         gene_assignments (length three_genes) (assignments st) = Inr ga \<and>
         ga = [2, 2, 2]"
    using st a g labels_nested_first by (intro exI [of _ st] exI [of _ ga]) simp
  with keys fits_equidistant np_max_equidistant show ?thesis by (intro conjI)
qed

text \<open>
  C2. With merge distances that are not negative (so that the 1000 thresholds ascend), the
  index set recorded for a captured complex is a cluster of at least two members cut at a
  scanned threshold \<open>t\<close>; its score is at least 0.5 and is the greatest score any such
  cluster reaches at any of the 1000 thresholds; and every such cluster at a scanned
  threshold below \<open>t\<close> scores strictly less, so \<open>t\<close> is the smallest threshold that
  reaches the best score. A score equal to \<^verbatim>\<open>best_jaccard\<close> changes nothing.
\<close>

theorem recorded_match_smallest_threshold:
  assumes fits: "fits link common_genes" and keys: "distinct (map fst complexes)"
    and mt: "np_max (maxdists link) = Inr max_thresh" and pos: "0 \<le> max_thresh"
    and scan: "scan_complexes link common_genes complexes = Inr st"
    and cg: "(c, g) \<in> set complexes" and rec: "(c, idxs) \<in> set (assignments st)"
  shows "(\<exists>t \<in> set (np_linspace 0 max_thresh 1000). \<exists>l \<in> set (fcluster link t).
           idxs = np_argwhere (fcluster link t) l \<and> 2 \<le> length idxs \<and>
           1 / 2 \<le> cluster_score common_genes g idxs \<and>
           (\<forall>t' \<in> set (np_linspace 0 max_thresh 1000). \<forall>l' \<in> set (fcluster link t').
              2 \<le> length (np_argwhere (fcluster link t') l') \<longrightarrow>
                cluster_score common_genes g (np_argwhere (fcluster link t') l')
                  \<le> cluster_score common_genes g idxs \<and>
                (t' < t \<longrightarrow>
                   cluster_score common_genes g (np_argwhere (fcluster link t') l')
                     < cluster_score common_genes g idxs))) \<and>
         (\<forall>s t' cl. record_match c t' cl (best_jaccard s) s = s)"
proof -
  let ?ts = "np_linspace 0 max_thresh 1000"
  from scan_complexes_Inr [OF fits keys mt] scan
  have asg: "assignments st = captured link common_genes max_thresh complexes" by auto
  from rec asg have "(c, idxs) \<in> set (captured link common_genes max_thresh complexes)"
    by simp
  from captured_match [OF keys cg this] obtain t where
    bm: "best_match link common_genes max_thresh g = Some (t, idxs)" by blast
  from best_match_first_best [OF bm pos] have
    mem: "(t, idxs) \<in> set (candidates link ?ts)"
    and half: "1 / 2 \<le> cluster_score common_genes g idxs"
    and best: "\<forall>v \<in> set (candidates link ?ts).
            cluster_score common_genes g (snd v) \<le> cluster_score common_genes g idxs \<and>
            (fst v < t \<longrightarrow> cluster_score common_genes g (snd v) < cluster_score common_genes g idxs)"
    by simp_all
  from candidate_shape [OF mem] obtain l where
    l: "t \<in> set ?ts" "2 \<le> length idxs" "l \<in> set (fcluster link t)"
       "idxs = np_argwhere (fcluster link t) l"
    by auto
  have all: "\<forall>t' \<in> set ?ts. \<forall>l' \<in> set (fcluster link t').
              2 \<le> length (np_argwhere (fcluster link t') l') \<longrightarrow>
                cluster_score common_genes g (np_argwhere (fcluster link t') l')
                  \<le> cluster_score common_genes g idxs \<and>
                (t' < t \<longrightarrow>
                   cluster_score common_genes g (np_argwhere (fcluster link t') l')
                     < cluster_score common_genes g idxs)"
  proof (intro ballI impI)
    fix t' l'
    assume h: "t' \<in> set ?ts" "l' \<in> set (fcluster link t')"
      "2 \<le> length (np_argwhere (fcluster link t') l')"
    then have "(t', np_argwhere (fcluster link t') l') \<in> set (candidates link ?ts)"
      unfolding set_candidates by blast
    from best [rule_format, OF this]
    show "cluster_score common_genes g (np_argwhere (fcluster link t') l')
                  \<le> cluster_score common_genes g idxs \<and>
                (t' < t \<longrightarrow>
                   cluster_score common_genes g (np_argwhere (fcluster link t') l')
                     < cluster_score common_genes g idxs)"
      by simp
  qed
  have "\<exists>t \<in> set ?ts. \<exists>l \<in> set (fcluster link t).
           idxs = np_argwhere (fcluster link t) l \<and> 2 \<le> length idxs \<and>
           1 / 2 \<le> cluster_score common_genes g idxs \<and>
           (\<forall>t' \<in> set ?ts. \<forall>l' \<in> set (fcluster link t').
              2 \<le> length (np_argwhere (fcluster link t') l') \<longrightarrow>
                cluster_score common_genes g (np_argwhere (fcluster link t') l')
                  \<le> cluster_score common_genes g idxs \<and>
                (t' < t \<longrightarrow>
                   cluster_score common_genes g (np_argwhere (fcluster link t') l')
                     < cluster_score common_genes g idxs))"
    using l half all by (intro bexI [of _ t] bexI [of _ l] conjI)
  then show ?thesis by (simp add: record_match_tie)
qed

theorem recorded_match_smallest_threshold_witness:
  "fits equidistant three_genes \<and> distinct (map fst [(''CPX-1'', [''g0'', ''g1''])]) \<and>
   np_max (maxdists equidistant) = Inr 1 \<and> (0::rat) \<le> 1 \<and>
   scan_complexes equidistant three_genes [(''CPX-1'', [''g0'', ''g1''])] =
     Inr \<lparr>highest_thresh = 1, best_jaccard = 2 / 3, assignments = [(''CPX-1'', [0, 1, 2])]\<rparr> \<and>
   (\<exists>t \<in> set (np_linspace 0 1 1000). \<exists>l \<in> set (fcluster equidistant t).
      [0, 1, 2] = np_argwhere (fcluster equidistant t) l \<and>
      1 / 2 \<le> cluster_score three_genes [''g0'', ''g1''] [0, 1, 2])"
proof -
  let ?cx = "[(''CPX-1'', [''g0'', ''g1''])]"
  let ?st = "\<lparr>highest_thresh = 1, best_jaccard = 2 / 3, assignments = [(''CPX-1'', [0, 1, 2])]\<rparr>"
  have keys: "distinct (map fst ?cx)" by simp
  have pos: "(0::rat) \<le> 1" by simp
  have cg: "(''CPX-1'', [''g0'', ''g1'']) \<in> set ?cx" by simp
  have rec: "(''CPX-1'', [0, 1, 2]) \<in> set (assignments ?st)" by simp
  from recorded_match_smallest_threshold [OF fits_equidistant keys np_max_equidistant pos
      scan_one_complex cg rec]
  have "\<exists>t \<in> set (np_linspace 0 1 1000). \<exists>l \<in> set (fcluster equidistant t).
      [0, 1, 2] = np_argwhere (fcluster equidistant t) l \<and>
      1 / 2 \<le> cluster_score three_genes [''g0'', ''g1''] [0, 1, 2]"
    by blast
  with fits_equidistant keys np_max_equidistant pos scan_one_complex show ?thesis
    by (intro conjI)
qed

text \<open>
  C3, as amended. A complex for which no cluster of at least two members reaches 0.5 at any
  scanned threshold (or with fewer than two genes among the items) is not in
  \<^verbatim>\<open>assignments\<close>, so no label is made for it. An item carrying one of its genes is
  labelled like any other: when it lies in the index set recorded for some captured
  complex, necessarily another one, it carries the label of the last captured complex, in
  the order of \<^verbatim>\<open>assignments\<close>, whose index set holds it; otherwise it carries the
  fallback label, which is greater than every captured label.

  As stated, the claim has none of the complex's genes carry a captured label. The label
  goes to the members of the recorded cluster, whatever complexes they belong to: below,
  CPX-3 is not captured, its gene g1 lies in the cluster recorded for CPX-1 and carries
  CPX-1's label 1, and only its gene g2 falls into the fallback partition.
\<close>

theorem uncaptured_complex_creates_no_label:
  assumes fits: "fits link common_genes" and keys: "distinct (map fst complexes)"
    and mt: "np_max (maxdists link) = Inr max_thresh" and ne: "common_genes \<noteq> []"
    and labels: "labelled_from_one link"
    and cg: "(c, g) \<in> set complexes"
    and nc: "\<not> capturable link common_genes max_thresh g"
  shows "\<exists>st out.
           scan_complexes link common_genes complexes = Inr st \<and>
           get_first_level_clusters link common_genes complexes = Inr out \<and>
           length out = length common_genes \<and>
           c \<notin> fst ` set (assignments st) \<and>
           (\<forall>i < length common_genes. common_genes ! i \<in> set g \<longrightarrow>
              (\<exists>j < length (assignments st).
                  fst (assignments st ! j) \<noteq> c \<and> i \<in> set (snd (assignments st ! j)) \<and>
                  (\<forall>j'. j < j' \<and> j' < length (assignments st) \<longrightarrow>
                     i \<notin> set (snd (assignments st ! j'))) \<and>
                  out ! i = int j + 1) \<or>
              ((\<forall>e \<in> set (assignments st). i \<notin> set (snd e)) \<and>
               out ! i = int (length (assignments st)) + 1 +
                           fcluster link (highest_thresh st + 1 / 10) ! i \<and>
               (\<forall>e \<in> set (captured_labels (assignments st)). snd e < out ! i)))"
proof -
  let ?n = "length common_genes"
  from output_cases [OF fits keys mt ne] obtain st ga out where
    r: "scan_complexes link common_genes complexes = Inr st"
       "assignments st = captured link common_genes max_thresh complexes"
       "get_first_level_clusters link common_genes complexes = Inr out" "length out = ?n"
    and cases: "\<forall>i < ?n.
              (\<exists>j < length (assignments st).
                 i \<in> set (snd (assignments st ! j)) \<and>
                 (\<forall>j'. j < j' \<and> j' < length (assignments st) \<longrightarrow>
                    i \<notin> set (snd (assignments st ! j'))) \<and>
                 out ! i = int j + 1) \<or>
              ((\<forall>e \<in> set (assignments st). i \<notin> set (snd e)) \<and>
               out ! i = int (length (assignments st)) + 1 +
                           fcluster link (highest_thresh st + 1 / 10) ! i)"
    by blast
  have notin: "c \<notin> fst ` set (assignments st)"
    using captured_key_iff [OF keys cg] nc by (simp add: r(2))
  have "(\<exists>j < length (assignments st).
                  fst (assignments st ! j) \<noteq> c \<and> i \<in> set (snd (assignments st ! j)) \<and>
                  (\<forall>j'. j < j' \<and> j' < length (assignments st) \<longrightarrow>
                     i \<notin> set (snd (assignments st ! j'))) \<and>
                  out ! i = int j + 1) \<or>
              ((\<forall>e \<in> set (assignments st). i \<notin> set (snd e)) \<and>
               out ! i = int (length (assignments st)) + 1 +
                           fcluster link (highest_thresh st + 1 / 10) ! i \<and>
               (\<forall>e \<in> set (captured_labels (assignments st)). snd e < out ! i))"
    if i: "i < ?n" for i
  proof -
    from cases i consider
      (a) j where "j < length (assignments st)" "i \<in> set (snd (assignments st ! j))"
          "\<forall>j'. j < j' \<and> j' < length (assignments st) \<longrightarrow> i \<notin> set (snd (assignments st ! j'))"
          "out ! i = int j + 1"
      | (b) "\<forall>e \<in> set (assignments st). i \<notin> set (snd e)"
          "out ! i = int (length (assignments st)) + 1 +
                           fcluster link (highest_thresh st + 1 / 10) ! i"
      by blast
    then show ?thesis
    proof cases
      case a
      from a(1) have "assignments st ! j \<in> set (assignments st)" by simp
      with notin have "fst (assignments st ! j) \<noteq> c" by force
      with a show ?thesis by blast
    next
      case b
      have "i < length (fcluster link (highest_thresh st + 1 / 10))"
        using fits i by (simp add: fits_def)
      then have "fcluster link (highest_thresh st + 1 / 10) ! i
            \<in> set (fcluster link (highest_thresh st + 1 / 10))" by simp
      with labels have "1 \<le> fcluster link (highest_thresh st + 1 / 10) ! i"
        by (simp add: labelled_from_one_def)
      with b(2) have big: "int (length (assignments st)) < out ! i" by simp
      have "\<forall>e \<in> set (captured_labels (assignments st)). snd e < out ! i"
        using captured_labels_bound big by fastforce
      with b show ?thesis by blast
    qed
  qed
  with r(1,3,4) notin show ?thesis by blast
qed

theorem uncaptured_complex_creates_no_label_witness:
  "fits pair_first three_genes \<and>
   distinct (map fst [(''CPX-1'', [''g0'', ''g1'']),
                      (''CPX-3'', [''g1'', ''g2'', ''h0'', ''h1'', ''h2''])]) \<and>
   np_max (maxdists pair_first) = Inr 2 \<and> three_genes \<noteq> [] \<and> labelled_from_one pair_first \<and>
   (''CPX-3'', [''g1'', ''g2'', ''h0'', ''h1'', ''h2''])
     \<in> set [(''CPX-1'', [''g0'', ''g1'']), (''CPX-3'', [''g1'', ''g2'', ''h0'', ''h1'', ''h2''])] \<and>
   \<not> capturable pair_first three_genes 2 [''g1'', ''g2'', ''h0'', ''h1'', ''h2''] \<and>
   (\<exists>st. scan_complexes pair_first three_genes
            [(''CPX-1'', [''g0'', ''g1'']),
             (''CPX-3'', [''g1'', ''g2'', ''h0'', ''h1'', ''h2''])] = Inr st \<and>
         assignments st = [(''CPX-1'', [0, 1])] \<and>
         ''CPX-3'' \<notin> fst ` set (assignments st)) \<and>
   get_first_level_clusters pair_first three_genes
     [(''CPX-1'', [''g0'', ''g1'']), (''CPX-3'', [''g1'', ''g2'', ''h0'', ''h1'', ''h2''])] =
     Inr [1, 1, 4]"
proof -
  let ?g = "[''g1'', ''g2'', ''h0'', ''h1'', ''h2'']"
  let ?cx = "[(''CPX-1'', [''g0'', ''g1'']), (''CPX-3'', ?g)]"
  have keys: "distinct (map fst ?cx)" by simp
  have cg: "(''CPX-3'', ?g) \<in> set ?cx" by simp
  from uncaptured_complex_creates_no_label [OF fits_pair_first keys np_max_pair_first
      three_genes_nonempty labelled_pair_first cg not_capturable_cpx3]
  obtain st where r: "scan_complexes pair_first three_genes ?cx = Inr st"
    "''CPX-3'' \<notin> fst ` set (assignments st)"
    by blast
  from r(1) scan_pair_first have a: "assignments st = [(''CPX-1'', [0, 1])]" by auto
  have "\<exists>st. scan_complexes pair_first three_genes ?cx = Inr st \<and>
         assignments st = [(''CPX-1'', [0, 1])] \<and>
         ''CPX-3'' \<notin> fst ` set (assignments st)"
    using r a by (intro exI [of _ st]) simp
  with fits_pair_first keys np_max_pair_first three_genes_nonempty labelled_pair_first cg
    not_capturable_cpx3 output_pair_first
  show ?thesis by (intro conjI)
qed

theorem uncaptured_complex_gene_labelled_counterexample:
  "\<not> capturable pair_first three_genes 2 [''g1'', ''g2'', ''h0'', ''h1'', ''h2''] \<and>
   scan_complexes pair_first three_genes
     [(''CPX-1'', [''g0'', ''g1'']), (''CPX-3'', [''g1'', ''g2'', ''h0'', ''h1'', ''h2''])] =
     Inr \<lparr>highest_thresh = 1000 / 999, best_jaccard = 0, assignments = [(''CPX-1'', [0, 1])]\<rparr> \<and>
   captured_labels [(''CPX-1'', [0, 1])] = [(''CPX-1'', 1)] \<and>
   get_first_level_clusters pair_first three_genes
     [(''CPX-1'', [''g0'', ''g1'']), (''CPX-3'', [''g1'', ''g2'', ''h0'', ''h1'', ''h2''])] =
     Inr [1, 1, 4] \<and>
   three_genes ! 1 = ''g1'' \<and> [1, 1, 4 :: int] ! 1 = 1"
proof -
  have "captured_labels [(''CPX-1'', [0, 1])] = [(''CPX-1'', 1)]"
    by (simp add: captured_labels_def)
  moreover have "three_genes ! 1 = ''g1''" by (simp add: three_genes_def)
  ultimately show ?thesis
    using not_capturable_cpx3 scan_pair_first output_pair_first by simp
qed

text \<open>
  C4, as amended. For a linkage that labels every item from 1 on and a non-empty item set,
  the function returns one label for each item, every label at least 1. An item in the
  index set of some captured complex carries the label of the last captured complex, in
  the order of \<^verbatim>\<open>assignments\<close>, whose index set holds it. Every other item carries
  \<open>m + 1 + c\<close>, with \<open>m\<close> the number of captured complexes, which is the maximum of
  \<^verbatim>\<open>gene_assignments\<close>, and \<open>c\<close> its cluster in the cut at \<^verbatim>\<open>highest_thresh + 0.1\<close>; that
  label is greater than the label of every captured complex.

  As stated, the claim has every item recorded for a captured complex keep that complex's
  label. Two captured complexes can record overlapping clusters, and then the items they
  share carry the later one's label only: below, the three items are recorded for CPX-1
  (label 1) and for CPX-2 (label 2), and the output is 2, 2, 2.
\<close>

theorem every_item_labelled:
  assumes fits: "fits link common_genes" and keys: "distinct (map fst complexes)"
    and mt: "np_max (maxdists link) = Inr max_thresh" and ne: "common_genes \<noteq> []"
    and labels: "labelled_from_one link"
  shows "\<exists>st ga out.
           scan_complexes link common_genes complexes = Inr st \<and>
           gene_assignments (length common_genes) (assignments st) = Inr ga \<and>
           np_max ga = Inr (int (length (assignments st))) \<and>
           get_first_level_clusters link common_genes complexes = Inr out \<and>
           length out = length common_genes \<and>
           (\<forall>i < length common_genes.
              1 \<le> out ! i \<and>
              ((\<exists>j < length (assignments st).
                  i \<in> set (snd (assignments st ! j)) \<and>
                  (\<forall>j'. j < j' \<and> j' < length (assignments st) \<longrightarrow>
                     i \<notin> set (snd (assignments st ! j'))) \<and>
                  out ! i = int j + 1) \<or>
               ((\<forall>e \<in> set (assignments st). i \<notin> set (snd e)) \<and>
                out ! i = int (length (assignments st)) + 1 +
                            fcluster link (highest_thresh st + 1 / 10) ! i \<and>
                (\<forall>e \<in> set (captured_labels (assignments st)). snd e < out ! i))))"
proof -
  let ?n = "length common_genes"
  from output_cases [OF fits keys mt ne] obtain st ga out where
    r: "scan_complexes link common_genes complexes = Inr st"
       "gene_assignments ?n (assignments st) = Inr ga"
       "np_max ga = Inr (int (length (assignments st)))"
       "get_first_level_clusters link common_genes complexes = Inr out" "length out = ?n"
    and cases: "\<forall>i < ?n.
              (\<exists>j < length (assignments st).
                 i \<in> set (snd (assignments st ! j)) \<and>
                 (\<forall>j'. j < j' \<and> j' < length (assignments st) \<longrightarrow>
                    i \<notin> set (snd (assignments st ! j'))) \<and>
                 out ! i = int j + 1) \<or>
              ((\<forall>e \<in> set (assignments st). i \<notin> set (snd e)) \<and>
               out ! i = int (length (assignments st)) + 1 +
                           fcluster link (highest_thresh st + 1 / 10) ! i)"
    by blast
  have "1 \<le> out ! i \<and>
              ((\<exists>j < length (assignments st).
                  i \<in> set (snd (assignments st ! j)) \<and>
                  (\<forall>j'. j < j' \<and> j' < length (assignments st) \<longrightarrow>
                     i \<notin> set (snd (assignments st ! j'))) \<and>
                  out ! i = int j + 1) \<or>
               ((\<forall>e \<in> set (assignments st). i \<notin> set (snd e)) \<and>
                out ! i = int (length (assignments st)) + 1 +
                            fcluster link (highest_thresh st + 1 / 10) ! i \<and>
                (\<forall>e \<in> set (captured_labels (assignments st)). snd e < out ! i)))"
    if i: "i < ?n" for i
  proof -
    from cases i consider
      (a) j where "j < length (assignments st)" "i \<in> set (snd (assignments st ! j))"
          "\<forall>j'. j < j' \<and> j' < length (assignments st) \<longrightarrow> i \<notin> set (snd (assignments st ! j'))"
          "out ! i = int j + 1"
      | (b) "\<forall>e \<in> set (assignments st). i \<notin> set (snd e)"
          "out ! i = int (length (assignments st)) + 1 +
                           fcluster link (highest_thresh st + 1 / 10) ! i"
      by blast
    then show ?thesis
    proof cases
      case a
      then have "1 \<le> out ! i" by simp
      with a show ?thesis by blast
    next
      case b
      have "i < length (fcluster link (highest_thresh st + 1 / 10))"
        using fits i by (simp add: fits_def)
      then have "fcluster link (highest_thresh st + 1 / 10) ! i
            \<in> set (fcluster link (highest_thresh st + 1 / 10))" by simp
      with labels have "1 \<le> fcluster link (highest_thresh st + 1 / 10) ! i"
        by (simp add: labelled_from_one_def)
      with b(2) have big: "int (length (assignments st)) < out ! i" by simp
      then have "1 \<le> out ! i" by simp
      moreover have "\<forall>e \<in> set (captured_labels (assignments st)). snd e < out ! i"
        using captured_labels_bound big by fastforce
      ultimately show ?thesis using b by blast
    qed
  qed
  with r show ?thesis by blast
qed

theorem every_item_labelled_witness:
  "fits pair_first three_genes \<and>
   distinct (map fst [(''CPX-1'', [''g0'', ''g1'']),
                      (''CPX-3'', [''g1'', ''g2'', ''h0'', ''h1'', ''h2''])]) \<and>
   np_max (maxdists pair_first) = Inr 2 \<and> three_genes \<noteq> [] \<and> labelled_from_one pair_first \<and>
   (\<exists>st ga. scan_complexes pair_first three_genes
               [(''CPX-1'', [''g0'', ''g1'']),
                (''CPX-3'', [''g1'', ''g2'', ''h0'', ''h1'', ''h2''])] = Inr st \<and>
            assignments st = [(''CPX-1'', [0, 1])] \<and>
            gene_assignments (length three_genes) (assignments st) = Inr ga \<and>
            np_max ga = Inr 1) \<and>
   get_first_level_clusters pair_first three_genes
     [(''CPX-1'', [''g0'', ''g1'']), (''CPX-3'', [''g1'', ''g2'', ''h0'', ''h1'', ''h2''])] =
     Inr [1, 1, 4]"
proof -
  let ?cx = "[(''CPX-1'', [''g0'', ''g1'']), (''CPX-3'', [''g1'', ''g2'', ''h0'', ''h1'', ''h2''])]"
  have keys: "distinct (map fst ?cx)" by simp
  from every_item_labelled [OF fits_pair_first keys np_max_pair_first three_genes_nonempty
      labelled_pair_first]
  obtain st ga where r:
    "scan_complexes pair_first three_genes ?cx = Inr st"
    "gene_assignments (length three_genes) (assignments st) = Inr ga"
    "np_max ga = Inr (int (length (assignments st)))"
    by blast
  from r(1) scan_pair_first have a: "assignments st = [(''CPX-1'', [0, 1])]" by auto
  with r(3) have m: "np_max ga = Inr 1" by simp
  have "\<exists>st ga. scan_complexes pair_first three_genes ?cx = Inr st \<and>
            assignments st = [(''CPX-1'', [0, 1])] \<and>
            gene_assignments (length three_genes) (assignments st) = Inr ga \<and>
            np_max ga = Inr 1"
    using r(1,2) a m by (intro exI [of _ st] exI [of _ ga]) simp
  with fits_pair_first keys np_max_pair_first three_genes_nonempty labelled_pair_first
    output_pair_first
  show ?thesis by (intro conjI)
qed

theorem recorded_item_other_label_counterexample:
  "scan_complexes equidistant three_genes
     [(''CPX-1'', [''g0'', ''g1'', ''g2'']), (''CPX-2'', [''g0'', ''g1''])] =
     Inr \<lparr>highest_thresh = 1, best_jaccard = 2 / 3,
          assignments = [(''CPX-1'', [0, 1, 2]), (''CPX-2'', [0, 1, 2])]\<rparr> \<and>
   captured_labels [(''CPX-1'', [0, 1, 2]), (''CPX-2'', [0, 1, 2])] =
     [(''CPX-1'', 1), (''CPX-2'', 2)] \<and>
   get_first_level_clusters equidistant three_genes
     [(''CPX-1'', [''g0'', ''g1'', ''g2'']), (''CPX-2'', [''g0'', ''g1''])] = Inr [2, 2, 2] \<and>
   [2, 2, 2 :: int] ! 0 \<noteq> 1"
proof -
  have "captured_labels [(''CPX-1'', [0, 1, 2]), (''CPX-2'', [0, 1, 2])] =
     [(''CPX-1'', 1), (''CPX-2'', 2)]"
    by (simp add: captured_labels_def)
  with scan_nested_pair output_nested_pair show ?thesis by simp
qed

text \<open>
  C5. With merge distances that are not negative: every visit of a label at a scanned
  threshold leaves \<^verbatim>\<open>highest_thresh\<close> at least as large as it was and, if it was at most
  \<^verbatim>\<open>max_thresh\<close>, at most \<^verbatim>\<open>max_thresh\<close>; the visit changes it only when the cluster's
  score is strictly above \<^verbatim>\<open>best_jaccard\<close> and at least 0.5, and then to the threshold of
  the visit. Accordingly the value after any first \<open>n\<close> complexes is between 0 and the
  value after all of them, which is at most \<^verbatim>\<open>max_thresh\<close>.
\<close>

theorem highest_thresh_monotone_bounded:
  assumes mt: "np_max (maxdists link) = Inr max_thresh" and pos: "0 \<le> max_thresh"
  shows "(\<forall>thresh \<in> set (np_linspace 0 max_thresh 1000). \<forall>c g clusters label st st'.
            label_body common_genes c g thresh clusters label st = Inr st' \<longrightarrow>
              highest_thresh st \<le> highest_thresh st' \<and>
              (highest_thresh st \<le> max_thresh \<longrightarrow> highest_thresh st' \<le> max_thresh) \<and>
              (highest_thresh st' \<noteq> highest_thresh st \<longrightarrow>
                 best_jaccard st < cluster_score common_genes g (np_argwhere clusters label) \<and>
                 1 / 2 \<le> cluster_score common_genes g (np_argwhere clusters label) \<and>
                 highest_thresh st' = thresh)) \<and>
         (\<forall>n st1 st2.
            scan_complexes link common_genes (take n complexes) = Inr st1 \<longrightarrow>
            scan_complexes link common_genes complexes = Inr st2 \<longrightarrow>
              0 \<le> highest_thresh st1 \<and> highest_thresh st1 \<le> highest_thresh st2 \<and>
              highest_thresh st2 \<le> max_thresh)"
proof (intro conjI ballI allI impI)
  fix thresh c g clusters label st st'
  assume t: "thresh \<in> set (np_linspace 0 max_thresh 1000)"
    and b: "label_body common_genes c g thresh clusters label st = Inr st'"
  from label_body_highest [OF b] show "highest_thresh st \<le> highest_thresh st'" by simp
  {
    assume "highest_thresh st \<le> max_thresh"
    with label_body_highest [OF b] linspace_bounds [OF pos t]
    show "highest_thresh st' \<le> max_thresh" by auto
  }
  {
    assume "highest_thresh st' \<noteq> highest_thresh st"
    with label_body_event [OF b]
    show "best_jaccard st < cluster_score common_genes g (np_argwhere clusters label)"
      and "1 / 2 \<le> cluster_score common_genes g (np_argwhere clusters label)"
      and "highest_thresh st' = thresh" by simp_all
  }
next
  fix n st1 st2
  assume s1: "scan_complexes link common_genes (take n complexes) = Inr st1"
    and s2: "scan_complexes link common_genes complexes = Inr st2"
  from scan_complexes_prefix [OF mt pos s1 s2]
  show "0 \<le> highest_thresh st1" and "highest_thresh st1 \<le> highest_thresh st2"
    and "highest_thresh st2 \<le> max_thresh" by simp_all
qed

theorem highest_thresh_monotone_bounded_witness:
  "np_max (maxdists equidistant) = Inr 1 \<and> (0::rat) \<le> 1 \<and>
   1 \<in> set (np_linspace 0 1 1000) \<and>
   label_body three_genes ''CPX-1'' [''g0'', ''g1''] 1 [1, 1, 1] 1
     \<lparr>highest_thresh = 0, best_jaccard = 0, assignments = []\<rparr> =
     Inr \<lparr>highest_thresh = 1, best_jaccard = 2 / 3, assignments = [(''CPX-1'', [0, 1, 2])]\<rparr> \<and>
   best_jaccard \<lparr>highest_thresh = 0, best_jaccard = 0, assignments = []\<rparr>
     < cluster_score three_genes [''g0'', ''g1''] (np_argwhere [1, 1, 1] 1) \<and>
   1 / 2 \<le> cluster_score three_genes [''g0'', ''g1''] (np_argwhere [1, 1, 1] 1) \<and>
   scan_complexes equidistant three_genes (take 0 [(''CPX-1'', [''g0'', ''g1''])]) =
     Inr \<lparr>highest_thresh = 0, best_jaccard = 0, assignments = []\<rparr> \<and>
   scan_complexes equidistant three_genes [(''CPX-1'', [''g0'', ''g1''])] =
     Inr \<lparr>highest_thresh = 1, best_jaccard = 2 / 3, assignments = [(''CPX-1'', [0, 1, 2])]\<rparr>"
proof -
  let ?s0 = "\<lparr>highest_thresh = 0, best_jaccard = 0, assignments = []\<rparr>"
  let ?s1 = "\<lparr>highest_thresh = 1, best_jaccard = 2 / 3, assignments = [(''CPX-1'', [0, 1, 2])]\<rparr>"
  have pos: "(0::rat) \<le> 1" by simp
  have ne: "highest_thresh ?s1 \<noteq> highest_thresh ?s0" by simp
  have empty: "scan_complexes equidistant three_genes (take 0 [(''CPX-1'', [''g0'', ''g1''])]) = Inr ?s0"
    by (simp add: scan_complexes_def and_then_def np_max_equidistant)
  from highest_thresh_monotone_bounded [OF np_max_equidistant pos, of three_genes]
  have "label_body three_genes ''CPX-1'' [''g0'', ''g1''] 1 [1, 1, 1] 1 ?s0 = Inr ?s1 \<longrightarrow>
        (highest_thresh ?s1 \<noteq> highest_thresh ?s0 \<longrightarrow>
           best_jaccard ?s0 < cluster_score three_genes [''g0'', ''g1''] (np_argwhere [1, 1, 1] 1) \<and>
           1 / 2 \<le> cluster_score three_genes [''g0'', ''g1''] (np_argwhere [1, 1, 1] 1))"
    using last_threshold by blast
  with label_step_equidistant ne have
    "best_jaccard ?s0 < cluster_score three_genes [''g0'', ''g1''] (np_argwhere [1, 1, 1] 1) \<and>
     1 / 2 \<le> cluster_score three_genes [''g0'', ''g1''] (np_argwhere [1, 1, 1] 1)"
    by blast
  with np_max_equidistant pos last_threshold label_step_equidistant empty scan_one_complex
  show ?thesis by (intro conjI) blast+
qed



text \<open>
  C7. create\_data\_structure reverses the list of levels and groups the items level by
  level, every leaf carrying a display name and the value 1, and (the claim says) every
  item is exactly one leaf of the tree. The code takes the members of a group from the
  whole level (\<^verbatim>\<open>clusters[idx] == label\<close>), not from the items of the enclosing group. With
  two items, singletons at the finest level, one cluster at the middle level and two
  clusters at the coarsest level, both items come out under both coarse groups: four
  leaves for two items.
\<close>

theorem create_data_structure_repeats_items:
  "create_data_structure [''g0'', ''g1''] [[1, 2], [1, 1], [1, 2]] =
     Inr (Dict (Node [] [Node [] [Node [] [Leaf ''g0'' 1, Leaf ''g1'' 1]],
                         Node [] [Node [] [Leaf ''g0'' 1, Leaf ''g1'' 1]]])) \<and>
   leaves (Node [] [Node [] [Node [] [Leaf ''g0'' 1, Leaf ''g1'' 1]],
                    Node [] [Node [] [Leaf ''g0'' 1, Leaf ''g1'' 1]]]) =
     [''g0'', ''g1'', ''g0'', ''g1'']"
  by code_simp

text \<open>
  C8. When the Jaccard denominator, the size of the union of the cluster's genes and the
  complex's genes, is zero, the score is 0, and the comparison changes nothing: it neither
  updates the best match nor captures the complex, whatever the state was.
\<close>

theorem zero_denominator_never_captures:
  assumes "length (np_union1d cluster_genes comp_genes) = 0"
  shows "jaccard_score cluster_genes comp_genes = 0 \<and>
         record_match complex thresh cluster (jaccard_score cluster_genes comp_genes) st = st"
  using assms by (simp add: jaccard_score_def record_match_def)

theorem zero_denominator_never_captures_witness:
  "length (np_union1d ([] :: string list) []) = 0 \<and>
   jaccard_score [] [] = 0 \<and>
   record_match ''CPX-1'' (1 / 4) [] (jaccard_score [] [])
     \<lparr>highest_thresh = 0, best_jaccard = 0, assignments = []\<rparr> =
     \<lparr>highest_thresh = 0, best_jaccard = 0, assignments = []\<rparr>"
proof -
  have h: "length (np_union1d ([] :: string list) []) = 0" by (simp add: np_union1d_def)
  from zero_denominator_never_captures [OF h, of "''CPX-1''" "1 / 4" "[]"
      "\<lparr>highest_thresh = 0, best_jaccard = 0, assignments = []\<rparr>"] h
  show ?thesis by blast
qed

text \<open>
  C10. When no complex is captured (\<^verbatim>\<open>assignments\<close> is empty after the scan) and there is
  at least one item, \<^verbatim>\<open>highest_thresh\<close> is still 0, \<^verbatim>\<open>gene_assignments\<close> is all zeros with
  maximum 0, and the function returns \<^verbatim>\<open>fcluster(link, 0.1) + 1\<close>.
\<close>

theorem nothing_captured_output:
  assumes scan: "scan_complexes link common_genes complexes = Inr st"
    and none: "assignments st = []" and ne: "common_genes \<noteq> []"
  shows "highest_thresh st = 0 \<and>
         gene_assignments (length common_genes) (assignments st) =
           Inr (replicate (length common_genes) 0) \<and>
         np_max (replicate (length common_genes) (0::int)) = Inr 0 \<and>
         get_first_level_clusters link common_genes complexes =
           Inr (map (\<lambda>l. l + 1) (fcluster link (1 / 10)))"
proof -
  from scan_complexes_untouched [OF scan] none have h: "highest_thresh st = 0"
    by (simp add: untouched_def)
  have ga: "gene_assignments (length common_genes) (assignments st) =
           Inr (replicate (length common_genes) 0)"
    by (simp add: gene_assignments_def none)
  have m: "np_max (replicate (length common_genes) (0::int)) = Inr 0"
    using ne by (simp add: np_max_zeros)
  have nz: "np_nonzero (replicate (length common_genes) (0::int)) = []"
    by (auto simp: np_nonzero_def filter_empty_conv)
  have "get_first_level_clusters link common_genes complexes =
           Inr (map (\<lambda>l. l + 1) (fcluster link (1 / 10)))"
    by (simp add: get_first_level_clusters_def scan and_then_def ga m nz h np_take_def
        np_put_each_def add.commute)
  with h ga m show ?thesis by simp
qed

theorem nothing_captured_output_witness:
  "scan_complexes equidistant three_genes [(''CPX-9'', [''g2'', ''h0''])] =
     Inr \<lparr>highest_thresh = 0, best_jaccard = 0, assignments = []\<rparr> \<and>
   three_genes \<noteq> [] \<and>
   get_first_level_clusters equidistant three_genes [(''CPX-9'', [''g2'', ''h0''])] =
     Inr [2, 3, 4]"
proof -
  have m: "np_max (maxdists equidistant) = Inr 1" by (simp add: equidistant_def np_max_def)
  have skip: "length (np_intersect1d [''g2'', ''h0''] three_genes) < 2"
    by (simp add: np_intersect1d_def three_genes_def)
  have scan: "scan_complexes equidistant three_genes [(''CPX-9'', [''g2'', ''h0''])] =
     Inr \<lparr>highest_thresh = 0, best_jaccard = 0, assignments = []\<rparr>"
    using skip by (simp add: scan_complexes_def and_then_def m complex_body_def)
  have ne: "three_genes \<noteq> []" by (simp add: three_genes_def)
  have cut: "map (\<lambda>l. l + 1) (fcluster equidistant (1 / 10)) = [2, 3, 4]"
    by (simp add: equidistant_def)
  have none: "assignments \<lparr>highest_thresh = 0, best_jaccard = 0, assignments = []\<rparr> = []"
    by simp
  from nothing_captured_output [OF scan none ne] have
    "get_first_level_clusters equidistant three_genes [(''CPX-9'', [''g2'', ''h0''])] =
     Inr (map (\<lambda>l. l + 1) (fcluster equidistant (1 / 10)))"
    by blast
  with scan ne cut show ?thesis by simp
qed

end
